theory Spec2Isabelle
  imports Main "HOL-Library.Signed_Division" "HOL-Library.Multiset" "HOL-Library.Sublist"
    "HOL-Library.Word"
begin

section \<open>The Huffman tree builder of huffman.c\<close>

text \<open>
  The development follows \<^verbatim>\<open>src/huffman.c\<close>. A value of type \<open>node\<close> is what the C code
  holds in a \<^verbatim>\<open>node *\<close>: either the null pointer or a node with its four fields. Nodes are
  never written after \<^verbatim>\<open>createNode\<close> has filled them, so a pointer is identified with the
  tree it points to.

  C's \<^verbatim>\<open>int\<close> is taken to be 32 bits wide. Frequencies are mathematical integers and
  every addition of frequencies checks the range; leaving it is undefined behaviour in C
  and the error \<open>IntOverflow\<close> here. Array positions are C \<^verbatim>\<open>int\<close>s as well and are
  modelled by \<open>int\<close>; they are bounded by the length of the array, which is at most
  \<open>ASIZE\<close> in this program, and their arithmetic is not range-checked. A read or write
  outside the allocated array is the error \<open>OutOfBounds\<close>, following a null pointer is
  \<open>NullDeref\<close>. A failing \<^verbatim>\<open>malloc\<close> or \<^verbatim>\<open>calloc\<close> makes the program exit, which is the
  error \<open>AllocFailed\<close>.
\<close>

subsection \<open>Constants and data\<close>

definition ASIZE :: int where
  "ASIZE = 128"

definition PNODE :: int where
  "PNODE = - 250"

definition BITSPERBYTE :: int where
  "BITSPERBYTE = 8"

definition INT_MAX :: int where
  "INT_MAX = 2147483647"

definition INT_MIN :: int where
  "INT_MIN = - 2147483648"

datatype node = NULL | Node int int node node
  \<comment> \<open>\<open>Node freq c left right\<close>, in the order of the struct's fields\<close>

text \<open>
  The structs \<^verbatim>\<open>nodeIndex\<close> with its fields \<^verbatim>\<open>a\<close> and \<^verbatim>\<open>len\<close>, and \<^verbatim>\<open>buffer\<close> with its fields
  \<^verbatim>\<open>str\<close> and \<^verbatim>\<open>size\<close>. The arrays behind \<^verbatim>\<open>a\<close> and \<^verbatim>\<open>str\<close> are lists, as long as the
  allocated arrays.
\<close>

record nodeIndex =
  ni_a :: "node list"
  ni_len :: int

record buffer =
  buf_str :: "char list"
  buf_size :: int

datatype error =
  CannotOpenFile | BadArguments | TooFewNodes | AllocFailed | NullDeref | IntOverflow | OutOfBounds

text \<open>
  The allocator: \<open>blocks_left\<close> is the number of requests \<^verbatim>\<open>malloc\<close> and \<^verbatim>\<open>calloc\<close> will
  still satisfy, \<open>nodes_made\<close> counts the node structs handed out so far.
\<close>

record heap =
  nodes_made :: nat
  blocks_left :: nat

subsection \<open>Failure and memory access\<close>

text \<open>A failing statement ends the run; \<open>and_then m f\<close> goes on with \<open>f\<close> when \<open>m\<close> succeeded.\<close>

definition and_then :: "error + 'a \<Rightarrow> ('a \<Rightarrow> error + 'b) \<Rightarrow> error + 'b" where
  "and_then m f = (case m of Inl e \<Rightarrow> Inl e | Inr x \<Rightarrow> f x)"

definition alloc :: "heap \<Rightarrow> error + heap" where
  "alloc h = (if blocks_left h = 0 then Inl AllocFailed
              else Inr (h\<lparr>blocks_left := blocks_left h - 1\<rparr>))"

definition read_at :: "'a list \<Rightarrow> int \<Rightarrow> error + 'a" where
  "read_at xs i = (if 0 \<le> i \<and> i < int (length xs) then Inr (xs ! nat i) else Inl OutOfBounds)"

definition write_at :: "'a list \<Rightarrow> int \<Rightarrow> 'a \<Rightarrow> error + 'a list" where
  "write_at xs i v = (if 0 \<le> i \<and> i < int (length xs) then Inr (xs[nat i := v]) else Inl OutOfBounds)"

fun node_freq :: "node \<Rightarrow> error + int" where
  "node_freq NULL = Inl NullDeref"
| "node_freq (Node f s l r) = Inr f"

fun node_c :: "node \<Rightarrow> error + int" where
  "node_c NULL = Inl NullDeref"
| "node_c (Node f s l r) = Inr s"

definition freq_at :: "node list \<Rightarrow> int \<Rightarrow> error + int" where
  "freq_at xs i = (case read_at xs i of Inl e \<Rightarrow> Inl e | Inr n \<Rightarrow> node_freq n)"

definition int_add :: "int \<Rightarrow> int \<Rightarrow> error + int" where
  "int_add x y = (if INT_MIN \<le> x + y \<and> x + y \<le> INT_MAX then Inr (x + y) else Inl IntOverflow)"

text \<open>
  \<^verbatim>\<open>memmove(a + dst, a + src, n * sizeof(node *))\<close> inside one array: the \<open>n\<close> cells from
  \<open>src\<close> on are copied to the cells from \<open>dst\<close> on, as if through a temporary.
\<close>

definition memmove :: "'a list \<Rightarrow> int \<Rightarrow> int \<Rightarrow> int \<Rightarrow> error + 'a list" where
  "memmove xs dst src n =
     (if 0 \<le> n \<and> 0 \<le> dst \<and> 0 \<le> src \<and> dst + n \<le> int (length xs) \<and> src + n \<le> int (length xs)
      then Inr (take (nat dst) xs @ take (nat n) (drop (nat src) xs) @ drop (nat (dst + n)) xs)
      else Inl OutOfBounds)"

subsection \<open>Tree building\<close>

definition createNode :: "int \<Rightarrow> int \<Rightarrow> node \<Rightarrow> node \<Rightarrow> heap \<Rightarrow> error + (node \<times> heap)" where
  "createNode s f l r h =
     (case alloc h of
        Inl e \<Rightarrow> Inl e
      | Inr h' \<Rightarrow> Inr (Node f s l r, h'\<lparr>nodes_made := Suc (nodes_made h')\<rparr>))"

text \<open>
  The binary search of \<^verbatim>\<open>getInsertionPoint\<close>; \<open>start\<close> and \<open>end'\<close> are the two local
  variables of the loop. C's \<^verbatim>\<open>/\<close> rounds towards zero, which is \<open>sdiv\<close>.
\<close>

function getInsertionPoint_loop :: "int \<Rightarrow> nodeIndex \<Rightarrow> int \<Rightarrow> int \<Rightarrow> error + int" where
  "getInsertionPoint_loop key index start end' =
     (if start \<le> end' then
        (case freq_at (ni_a index) ((start + end') sdiv 2) of
           Inl e \<Rightarrow> Inl e
         | Inr f \<Rightarrow>
             if key > f then getInsertionPoint_loop key index ((start + end') sdiv 2 + 1) end'
             else if key < f then getInsertionPoint_loop key index start ((start + end') sdiv 2 - 1)
             else Inr ((start + end') sdiv 2))
      else Inr (start - 1))"
  by pat_completeness auto

termination getInsertionPoint_loop
proof (relation "measure (\<lambda>(key, index, start, end'). nat (end' - start + 1))", goal_cases)
  case 1
  show ?case by simp
next
  case (2 key index start end' f)
  have "(start + end') sdiv 2 = (if 0 \<le> start + end' then (start + end') div 2
          else - ((- (start + end')) div 2))"
    by (simp add: signed_divide_int_def sgn_if)
  with 2 show ?case by (auto split: if_splits)
next
  case (3 key index start end' f)
  have "(start + end') sdiv 2 = (if 0 \<le> start + end' then (start + end') div 2
          else - ((- (start + end')) div 2))"
    by (simp add: signed_divide_int_def sgn_if)
  with 3 show ?case by (auto split: if_splits)
qed

declare getInsertionPoint_loop.simps [simp del]

definition getInsertionPoint :: "int \<Rightarrow> nodeIndex \<Rightarrow> int \<Rightarrow> error + int" where
  "getInsertionPoint key index start = getInsertionPoint_loop key index start (ni_len index - 1)"

text \<open>
  One pass through the body of the \<^verbatim>\<open>for\<close> loop of \<^verbatim>\<open>populateTree\<close>, at loop
  variable \<open>start\<close>.
\<close>

definition populateTree_step :: "nodeIndex \<Rightarrow> int \<Rightarrow> heap \<Rightarrow> error + (nodeIndex \<times> heap)" where
  "populateTree_step index start h =
     (let lchild = start; rchild = start + 1 in
      and_then (read_at (ni_a index) lchild) (\<lambda>ln.
      and_then (node_freq ln) (\<lambda>lf.
      and_then (read_at (ni_a index) rchild) (\<lambda>rn.
      and_then (node_freq rn) (\<lambda>rf.
      and_then (int_add lf rf) (\<lambda>newfreq.
      and_then (createNode PNODE newfreq ln rn h) (\<lambda>(parent, h').
      and_then (getInsertionPoint newfreq index start) (\<lambda>insertpoint.
      and_then (write_at (ni_a index) rchild NULL) (\<lambda>a1.
      and_then (write_at a1 lchild NULL) (\<lambda>a2.
      and_then (if insertpoint > start + 1 then memmove a2 0 1 insertpoint else Inr a2) (\<lambda>a3.
      and_then (write_at a3 insertpoint parent) (\<lambda>a4.
      Inr (index\<lparr>ni_a := a4\<rparr>, h')))))))))))))"

function populateTree_loop :: "nodeIndex \<Rightarrow> int \<Rightarrow> heap \<Rightarrow> error + (nodeIndex \<times> heap)" where
  "populateTree_loop index start h =
     (if start < ni_len index - 1 then
        (case populateTree_step index start h of
           Inl e \<Rightarrow> Inl e
         | Inr (index', h') \<Rightarrow> populateTree_loop index' (start + 1) h')
      else Inr (index, h))"
  by pat_completeness auto

termination populateTree_loop
proof (relation "measure (\<lambda>(index, start, h). nat (ni_len index - 1 - start))", goal_cases)
  case 1
  show ?case by simp
next
  case (2 index start h res index' h')
  then have "populateTree_step index start h = Inr (index', h')"
    by simp
  then have "ni_len index' = ni_len index"
    by (auto simp: populateTree_step_def Let_def and_then_def split: sum.splits)
  with 2 show ?case by simp
qed

declare populateTree_loop.simps [simp del]

text \<open>
  \<^verbatim>\<open>populateTree\<close> returns the root pointer and leaves the array behind \<^verbatim>\<open>index\<close>
  changed; the result carries both.
\<close>

definition populateTree :: "nodeIndex \<Rightarrow> heap \<Rightarrow> error + (node \<times> nodeIndex \<times> heap)" where
  "populateTree index h =
     (case populateTree_loop index 0 h of
        Inl e \<Rightarrow> Inl e
      | Inr (index', h') \<Rightarrow>
          (case read_at (ni_a index') (ni_len index' - 1) of
             Inl e \<Rightarrow> Inl e
           | Inr root \<Rightarrow> Inr (root, index', h')))"

subsection \<open>From the frequency table to the sorted array\<close>

function calcNodeCnt_loop :: "int list \<Rightarrow> int \<Rightarrow> int \<Rightarrow> error + int" where
  "calcNodeCnt_loop a i cnt =
     (if i < ASIZE then
        (case read_at a i of
           Inl e \<Rightarrow> Inl e
         | Inr v \<Rightarrow> if v \<noteq> 0 then calcNodeCnt_loop a (i + 1) (cnt + 1)
                    else calcNodeCnt_loop a (i + 1) cnt)
      else Inr cnt)"
  by pat_completeness auto

termination calcNodeCnt_loop
  by (relation "measure (\<lambda>(a, i, cnt). nat (ASIZE - i))") auto

declare calcNodeCnt_loop.simps [simp del]

definition calcNodeCnt :: "int list \<Rightarrow> error + int" where
  "calcNodeCnt a =
     (case calcNodeCnt_loop a 0 0 of
        Inl e \<Rightarrow> Inl e
      | Inr cnt \<Rightarrow> if cnt < 2 then Inl TooFewNodes else Inr cnt)"

function createNodeIndex_loop ::
  "int list \<Rightarrow> node list \<Rightarrow> int \<Rightarrow> int \<Rightarrow> heap \<Rightarrow> error + (node list \<times> heap)" where
  "createNodeIndex_loop a na i j h =
     (if i < ASIZE then
        (case read_at a i of
           Inl e \<Rightarrow> Inl e
         | Inr v \<Rightarrow>
             if v \<noteq> 0 then
               (case createNode i v NULL NULL h of
                  Inl e \<Rightarrow> Inl e
                | Inr (p, h') \<Rightarrow>
                    (case write_at na j p of
                       Inl e \<Rightarrow> Inl e
                     | Inr na' \<Rightarrow> createNodeIndex_loop a na' (i + 1) (j + 1) h'))
             else createNodeIndex_loop a na (i + 1) j h)
      else Inr (na, h))"
  by pat_completeness auto

termination createNodeIndex_loop
  by (relation "measure (\<lambda>(a, na, i, j, h). nat (ASIZE - i))") auto

declare createNodeIndex_loop.simps [simp del]

text \<open>\<^verbatim>\<open>calloc(len, sizeof(node *))\<close> gives \<open>len\<close> null pointers; a negative \<open>len\<close> is refused.\<close>

definition createNodeIndex :: "int list \<Rightarrow> int \<Rightarrow> heap \<Rightarrow> error + (node list \<times> heap)" where
  "createNodeIndex a len h =
     (if len < 0 then Inl AllocFailed
      else case alloc h of
        Inl e \<Rightarrow> Inl e
      | Inr h' \<Rightarrow> createNodeIndex_loop a (replicate (nat len) NULL) 0 0 h')"

definition nodeComp :: "node \<Rightarrow> node \<Rightarrow> error + int" where
  "nodeComp n1 n2 =
     (case node_freq n1 of Inl e \<Rightarrow> Inl e | Inr f1 \<Rightarrow>
      case node_freq n2 of Inl e \<Rightarrow> Inl e | Inr f2 \<Rightarrow>
      if INT_MIN \<le> f1 - f2 \<and> f1 - f2 \<le> INT_MAX then Inr (f1 - f2) else Inl IntOverflow)"

text \<open>
  \<^verbatim>\<open>qsort\<close> belongs to the C library. All that is known of its result is that it is a
  rearrangement of the array in which no element compares greater than a later one; the
  order of elements that compare equal is not fixed. The sorting function is therefore a
  parameter \<open>qs\<close> of everything that calls it, and \<open>qsort_spec\<close> is what is assumed of it:
  it sorts every array of nodes whose frequencies are non-negative \<^verbatim>\<open>int\<close>s, where
  \<^verbatim>\<open>nodeComp\<close> neither follows a null pointer nor overflows.
\<close>

definition in_order :: "node \<Rightarrow> node \<Rightarrow> bool" where
  "in_order n1 n2 = (case nodeComp n1 n2 of Inl e \<Rightarrow> False | Inr d \<Rightarrow> d \<le> 0)"

definition comparable :: "node \<Rightarrow> bool" where
  "comparable n = (case node_freq n of Inl e \<Rightarrow> False | Inr f \<Rightarrow> 0 \<le> f \<and> f \<le> INT_MAX)"

definition qsort_spec :: "(node list \<Rightarrow> node list) \<Rightarrow> bool" where
  "qsort_spec qs \<longleftrightarrow>
     (\<forall>xs. list_all comparable xs \<longrightarrow> mset (qs xs) = mset xs \<and> sorted_wrt in_order (qs xs))"

text \<open>
  The part of \<^verbatim>\<open>main\<close> that builds the tree from the table: lines 74 to 76 set up
  the sorted array, line 77 calls \<^verbatim>\<open>populateTree\<close>.
\<close>

definition initIndex ::
  "(node list \<Rightarrow> node list) \<Rightarrow> int list \<Rightarrow> heap \<Rightarrow> error + (nodeIndex \<times> heap)" where
  "initIndex qs ascii h =
     and_then (calcNodeCnt ascii) (\<lambda>len.
     and_then (createNodeIndex ascii len h) (\<lambda>(na, h').
     Inr (\<lparr>ni_a = qs na, ni_len = len\<rparr>, h')))"

definition buildTree ::
  "(node list \<Rightarrow> node list) \<Rightarrow> int list \<Rightarrow> heap \<Rightarrow> error + (node \<times> nodeIndex \<times> heap)" where
  "buildTree qs ascii h =
     and_then (initIndex qs ascii h) (\<lambda>(index, h'). populateTree index h')"

subsection \<open>Encodings\<close>

fun treeHeight :: "node \<Rightarrow> int" where
  "treeHeight NULL = - 1"
| "treeHeight (Node f s l r) =
     (let lh = treeHeight l; rh = treeHeight r in if lh > rh then lh + 1 else rh + 1)"

definition NUL :: char where
  "NUL = CHR 0x00"

text \<open>
  \<^verbatim>\<open>calloc(size + 1, sizeof(char))\<close> gives \<open>size + 1\<close> zero bytes; a negative count is
  refused.
\<close>

definition createBuffer :: "int \<Rightarrow> heap \<Rightarrow> error + (buffer \<times> heap)" where
  "createBuffer size' h =
     (if size' + 1 < 0 then Inl AllocFailed
      else case alloc h of
        Inl e \<Rightarrow> Inl e
      | Inr h' \<Rightarrow> Inr (\<lparr>buf_str = replicate (nat (size' + 1)) NUL, buf_size = size' + 1\<rparr>, h'))"

text \<open>\<^verbatim>\<open>strlen\<close> runs to the first zero byte; past the end of the array if there is none.\<close>

definition strlen :: "char list \<Rightarrow> error + int" where
  "strlen s = (if NUL \<in> set s then Inr (int (length (takeWhile (\<lambda>ch. ch \<noteq> NUL) s)))
               else Inl OutOfBounds)"

text \<open>\<^verbatim>\<open>memset(s, '\0', n)\<close>.\<close>

definition memset0 :: "char list \<Rightarrow> int \<Rightarrow> error + char list" where
  "memset0 s n = (if 0 \<le> n \<and> n \<le> int (length s) then Inr (replicate (nat n) NUL @ drop (nat n) s)
                  else Inl OutOfBounds)"

text \<open>
  The loop of \<^verbatim>\<open>reverseString\<close>; the pointers \<open>a\<close> and \<open>b\<close> are positions in \<open>s\<close>.
\<close>

function reverseString_loop :: "char list \<Rightarrow> int \<Rightarrow> int \<Rightarrow> int \<Rightarrow> int \<Rightarrow> error + char list" where
  "reverseString_loop s i mid a b =
     (if i < mid then
        (case read_at s a of Inl e \<Rightarrow> Inl e | Inr temp \<Rightarrow>
           (case read_at s b of Inl e \<Rightarrow> Inl e | Inr vb \<Rightarrow>
              (case write_at s a vb of Inl e \<Rightarrow> Inl e | Inr s1 \<Rightarrow>
                 (case write_at s1 b temp of Inl e \<Rightarrow> Inl e | Inr s2 \<Rightarrow>
                    reverseString_loop s2 (i + 1) mid (a + 1) (b - 1)))))
      else Inr s)"
  by pat_completeness auto

termination reverseString_loop
  by (relation "measure (\<lambda>(s, i, mid, a, b). nat (mid - i))") auto

declare reverseString_loop.simps [simp del]

definition reverseString :: "char list \<Rightarrow> error + char list" where
  "reverseString s =
     (case strlen s of
        Inl e \<Rightarrow> Inl e
      | Inr n \<Rightarrow> reverseString_loop s 0 (n div 2) 0 (n - 1))"

text \<open>
  \<^verbatim>\<open>findEncoding\<close> with its function-static counter \<open>cnt\<close> and the buffer behind \<open>b\<close> as
  state. The local \<open>n\<close> is initialised with \<open>root\<close>, so the test \<^verbatim>\<open>n == root\<close> holds in
  every call and every call begins by setting \<open>cnt\<close> to 0.
\<close>

fun findEncoding :: "node \<Rightarrow> int \<Rightarrow> int \<times> buffer \<Rightarrow> error + (node \<times> int \<times> buffer)" where
  "findEncoding NULL target (cnt, b) = Inr (NULL, 0, b)"
| "findEncoding (Node f s l r) target (cnt, b) =
     (if s = target then Inr (Node f s l r, 0, b)
      else
        (case findEncoding l target (0, b) of
           Inl e \<Rightarrow> Inl e
         | Inr (ln, cnt1, b1) \<Rightarrow>
             if ln \<noteq> NULL then
               (case write_at (buf_str b1) cnt1 (CHR ''0'') of
                  Inl e \<Rightarrow> Inl e
                | Inr str' \<Rightarrow> Inr (ln, cnt1 + 1, b1\<lparr>buf_str := str'\<rparr>))
             else
               (case findEncoding r target (cnt1, b1) of
                  Inl e \<Rightarrow> Inl e
                | Inr (rn, cnt2, b2) \<Rightarrow>
                    if rn \<noteq> NULL then
                      (case write_at (buf_str b2) cnt2 (CHR ''1'') of
                         Inl e \<Rightarrow> Inl e
                       | Inr str' \<Rightarrow> Inr (rn, cnt2 + 1, b2\<lparr>buf_str := str'\<rparr>))
                    else Inr (NULL, cnt2, b2))))"

text \<open>
  A line of the report: the arguments \<^verbatim>\<open>n->c\<close>, \<^verbatim>\<open>b.str\<close>, \<^verbatim>\<open>strlen(b.str)\<close> and
  \<^verbatim>\<open>n->freq\<close> of the \<^verbatim>\<open>fprintf\<close> call. The format string only lays them out.
\<close>

type_synonym line = "int \<times> string \<times> int \<times> int"

text \<open>
  The body of the loop of \<^verbatim>\<open>printHuffman\<close> for a symbol \<open>i\<close> with a count. \<open>bits\<close> is an
  \<^verbatim>\<open>unsigned long\<close>, taken to be 64 bits wide. Of \<^verbatim>\<open>setFormatString\<close> only its read of
  \<^verbatim>\<open>n->c\<close> is kept; the format string it makes is not part of the model.
\<close>

definition printHuffman_body ::
  "node \<Rightarrow> int \<Rightarrow> int \<times> buffer \<times> int \<Rightarrow> error + (line \<times> int \<times> buffer \<times> int)" where
  "printHuffman_body root i st =
     (case st of (cnt, b, bits) \<Rightarrow>
      and_then (findEncoding root i (cnt, b)) (\<lambda>(n, cnt', b1).
      and_then (reverseString (buf_str b1)) (\<lambda>s1.
      and_then (node_c n) (\<lambda>nc.
      and_then (strlen s1) (\<lambda>len.
      and_then (node_freq n) (\<lambda>nf.
      and_then (memset0 s1 len) (\<lambda>s2.
      Inr ((nc, takeWhile (\<lambda>ch. ch \<noteq> NUL) s1, len, nf),
           cnt', b1\<lparr>buf_str := s2\<rparr>, (bits + len * nf) mod 2 ^ 64))))))))"

function printHuffman_loop ::
  "int list \<Rightarrow> node \<Rightarrow> int \<Rightarrow> int \<times> buffer \<times> int \<Rightarrow> line list \<Rightarrow> error + (line list \<times> int)" where
  "printHuffman_loop a root i st out =
     (if i < ASIZE then
        (case read_at a i of
           Inl e \<Rightarrow> Inl e
         | Inr v \<Rightarrow>
             if v \<noteq> 0 then
               (case printHuffman_body root i st of
                  Inl e \<Rightarrow> Inl e
                | Inr (l, st') \<Rightarrow> printHuffman_loop a root (i + 1) st' (out @ [l]))
             else printHuffman_loop a root (i + 1) st out)
      else Inr (out, snd (snd st)))"
  by pat_completeness auto

termination printHuffman_loop
  by (relation "measure (\<lambda>(a, root, i, st, out). nat (ASIZE - i))") auto

declare printHuffman_loop.simps [simp del]

text \<open>
  \<^verbatim>\<open>printHuffman\<close> writes the lines and the number of bytes; \<open>cnt\<close> is the value of the
  static counter of \<^verbatim>\<open>findEncoding\<close> when it is called.
\<close>

definition printHuffman ::
  "int list \<Rightarrow> node \<Rightarrow> int \<Rightarrow> heap \<Rightarrow> error + ((line list \<times> int) \<times> heap)" where
  "printHuffman a root cnt h =
     and_then (createBuffer (treeHeight root) h) (\<lambda>(b, h').
     and_then (printHuffman_loop a root 0 (cnt, b, 0) []) (\<lambda>(out, bits).
     Inr ((out, bits div BITSPERBYTE + (if bits mod BITSPERBYTE \<noteq> 0 then 1 else 0)), h')))"

subsection \<open>Reading the file\<close>

text \<open>
  The bytes of the file, as \<^verbatim>\<open>fgetc\<close> delivers them (0 to 255), counted into the table.
\<close>

fun count_bytes :: "int list \<Rightarrow> 8 word list \<Rightarrow> error + int list" where
  "count_bytes a [] = Inr a"
| "count_bytes a (ch # rest) =
     (case read_at a (uint ch) of Inl e \<Rightarrow> Inl e | Inr v \<Rightarrow>
        (case int_add v 1 of Inl e \<Rightarrow> Inl e | Inr v' \<Rightarrow>
           (case write_at a (uint ch) v' of Inl e \<Rightarrow> Inl e | Inr a' \<Rightarrow> count_bytes a' rest)))"

text \<open>\<open>file\<close> is \<open>None\<close> when \<^verbatim>\<open>fopen\<close> fails.\<close>

definition getFreqsFromFile :: "int \<Rightarrow> 8 word list option \<Rightarrow> int list \<Rightarrow> error + int list" where
  "getFreqsFromFile argc file a =
     (case file of
        None \<Rightarrow> Inl CannotOpenFile
      | Some bytes \<Rightarrow> if argc \<noteq> 2 then Inl BadArguments else count_bytes a bytes)"

text \<open>
  \<^verbatim>\<open>main\<close>, up to the report it prints. The calls of \<^verbatim>\<open>free\<close> at its end are left out.
\<close>

definition main ::
  "int \<Rightarrow> 8 word list option \<Rightarrow> (node list \<Rightarrow> node list) \<Rightarrow> heap \<Rightarrow> error + (line list \<times> int)" where
  "main argc file qs h =
     and_then (getFreqsFromFile argc file (replicate (nat ASIZE) 0)) (\<lambda>ascii.
     and_then (buildTree qs ascii h) (\<lambda>(root, index, h').
     and_then (printHuffman ascii root 0 h') (\<lambda>(report, h'').
     Inr report)))"


section \<open>Notions used in the statements\<close>

text \<open>The frequency stored in a node; 0 for the null pointer, which has none.\<close>

fun freq_of :: "node \<Rightarrow> int" where
  "freq_of NULL = 0"
| "freq_of (Node f s l r) = f"

text \<open>The entries of the array from position \<open>start\<close> on: the frontier not yet merged.\<close>

definition live :: "nodeIndex \<Rightarrow> int \<Rightarrow> node list" where
  "live index start = drop (nat start) (ni_a index)"

text \<open>
  What \<^verbatim>\<open>getInsertionPoint\<close> relies on: \<open>len\<close> is the size of the array, and from \<open>start\<close>
  on the array holds nodes in ascending order of frequency.
\<close>

definition searchable :: "nodeIndex \<Rightarrow> int \<Rightarrow> bool" where
  "searchable index start \<longleftrightarrow>
     0 \<le> start \<and> ni_len index = int (length (ni_a index)) \<and>
     NULL \<notin> set (drop (nat start) (ni_a index)) \<and>
     sorted (map freq_of (drop (nat start) (ni_a index)))"

text \<open>
  Position \<open>r\<close> keeps the order for a node of frequency \<open>key\<close>: the entries from \<open>start\<close>
  to \<open>r\<close> are at most \<open>key\<close>, the later ones at least \<open>key\<close>.
\<close>

definition fits :: "int \<Rightarrow> nodeIndex \<Rightarrow> int \<Rightarrow> int \<Rightarrow> bool" where
  "fits key index start r \<longleftrightarrow>
     start - 1 \<le> r \<and> r < ni_len index \<and>
     list_all (\<lambda>n. freq_of n \<le> key) (take (nat (r - start + 1)) (live index start)) \<and>
     list_all (\<lambda>n. key \<le> freq_of n) (drop (nat (r - start + 1)) (live index start))"

text \<open>
  The rightmost position that keeps the order, in the words of the specification: the
  last position up to which no entry exceeds \<open>key\<close>.
\<close>

definition rightmost_fit :: "int \<Rightarrow> nodeIndex \<Rightarrow> int \<Rightarrow> int" where
  "rightmost_fit key index start =
     start - 1 + int (length (takeWhile (\<lambda>n. freq_of n \<le> key) (live index start)))"

text \<open>
  The state of the array when the loop of \<^verbatim>\<open>populateTree\<close> is at its head with loop
  variable \<open>start\<close>: sorted nodes from \<open>start\<close> on, at least one of them, each of positive
  frequency, and a sum of frequencies that fits an \<^verbatim>\<open>int\<close>.
\<close>

definition frontier_ok :: "nodeIndex \<Rightarrow> int \<Rightarrow> bool" where
  "frontier_ok index start \<longleftrightarrow>
     searchable index start \<and> start < ni_len index \<and>
     list_all (\<lambda>n. 0 < freq_of n) (live index start) \<and>
     sum_list (map freq_of (live index start)) \<le> INT_MAX"

text \<open>
  The state after the first \<open>k\<close> passes of the loop of \<^verbatim>\<open>populateTree\<close>, that is, at the
  head of the loop with loop variable \<open>k\<close>.
\<close>

fun merge_steps :: "nat \<Rightarrow> nodeIndex \<Rightarrow> heap \<Rightarrow> error + (nodeIndex \<times> heap)" where
  "merge_steps 0 index h = Inr (index, h)"
| "merge_steps (Suc k) index h =
     and_then (merge_steps k index h) (\<lambda>(index', h'). populateTree_step index' (int k) h')"

text \<open>
  Trees as the merges build them: a leaf carries a symbol other than \<open>PNODE\<close>, an inner
  node carries \<open>PNODE\<close>, has two children and the sum of their frequencies.
\<close>

fun built :: "node \<Rightarrow> bool" where
  "built NULL = False"
| "built (Node f s l r) =
     (if l = NULL \<and> r = NULL then s \<noteq> PNODE
      else l \<noteq> NULL \<and> r \<noteq> NULL \<and> s = PNODE \<and> f = freq_of l + freq_of r \<and> built l \<and> built r)"

text \<open>Every node has no child or two.\<close>

fun full :: "node \<Rightarrow> bool" where
  "full NULL = True"
| "full (Node f s l r) = (((l = NULL) = (r = NULL)) \<and> full l \<and> full r)"

text \<open>The leaves of a tree from left to right, each with its symbol and its frequency.\<close>

fun leaves :: "node \<Rightarrow> (int \<times> int) list" where
  "leaves NULL = []"
| "leaves (Node f s l r) = (if l = NULL \<and> r = NULL then [(s, f)] else leaves l @ leaves r)"

text \<open>
  The symbols with a count in the table, in ascending order, and the number of them; the
  leaf \<^verbatim>\<open>createNodeIndex\<close> makes for a symbol.
\<close>

definition symbols :: "int list \<Rightarrow> int list" where
  "symbols a = filter (\<lambda>i. a ! nat i \<noteq> 0) [0..ASIZE - 1]"

definition symbolCount :: "int list \<Rightarrow> int" where
  "symbolCount a = int (length (symbols a))"

definition leaf_of :: "int list \<Rightarrow> int \<Rightarrow> node" where
  "leaf_of a i = Node (a ! nat i) i NULL NULL"

text \<open>
  A valid frequency table: the \<open>ASIZE\<close> counters of \<^verbatim>\<open>main\<close>, none negative, whose total
  (the length of the file) fits an \<^verbatim>\<open>int\<close>.
\<close>

definition valid_table :: "int list \<Rightarrow> bool" where
  "valid_table a \<longleftrightarrow>
     int (length a) = ASIZE \<and> list_all (\<lambda>v. 0 \<le> v) a \<and> sum_list a \<le> INT_MAX"

text \<open>
  The invariant of the loop of \<^verbatim>\<open>populateTree\<close> with the trees in view: the frontier
  from \<open>start\<close> on consists of trees built by merges whose leaves are, all together, \<open>L\<close>,
  and every entry before \<open>start\<close> has been set to null.
\<close>

definition forest :: "nodeIndex \<Rightarrow> int \<Rightarrow> (int \<times> int) multiset \<Rightarrow> bool" where
  "forest index start L \<longleftrightarrow>
     frontier_ok index start \<and> list_all built (live index start) \<and>
     mset (concat (map leaves (live index start))) = L \<and>
     list_all (\<lambda>n. n = NULL) (take (nat start) (ni_a index))"

text \<open>The symbols with a count from \<open>i\<close> on.\<close>

definition nz :: "int list \<Rightarrow> int \<Rightarrow> int list" where
  "nz a i = filter (\<lambda>j. a ! nat j \<noteq> 0) [i..ASIZE - 1]"

text \<open>The symbols of the table with their counts.\<close>

definition table_leaves :: "int list \<Rightarrow> (int \<times> int) multiset" where
  "table_leaves a = mset (map (\<lambda>i. (i, a ! nat i)) (symbols a))"

text \<open>
  A sorting function that meets \<open>qsort_spec\<close>, for checking statements on concrete
  tables: insertion sort by frequency.
\<close>

definition sort_by_freq :: "node list \<Rightarrow> node list" where
  "sort_by_freq xs = sort_key freq_of xs"

text \<open>
  The path on which the depth-first search of \<^verbatim>\<open>findEncoding\<close> reaches the first node
  with the symbol \<open>t\<close>, from the root down: \<open>0\<close> for a step to the left child, \<open>1\<close> for a
  step to the right child.
\<close>

fun path_to :: "node \<Rightarrow> int \<Rightarrow> string option" where
  "path_to NULL t = None"
| "path_to (Node f s l r) t =
     (if s = t then Some []
      else case path_to l t of
        Some p \<Rightarrow> Some (CHR ''0'' # p)
      | None \<Rightarrow> (case path_to r t of Some p \<Rightarrow> Some (CHR ''1'' # p) | None \<Rightarrow> None))"

text \<open>The node at the end of a path of \<open>0\<close>s and \<open>1\<close>s; null when the path leaves the tree.\<close>

fun descend :: "node \<Rightarrow> string \<Rightarrow> node" where
  "descend n [] = n"
| "descend NULL (ch # p) = NULL"
| "descend (Node f s l r) (ch # p) =
     (if ch = CHR ''0'' then descend l p else if ch = CHR ''1'' then descend r p else NULL)"

text \<open>The leaves with their depths (number of edges from the root, which is at depth \<open>d\<close>).\<close>

fun leaf_depths :: "node \<Rightarrow> nat \<Rightarrow> (int \<times> nat) list" where
  "leaf_depths NULL d = []"
| "leaf_depths (Node f s l r) d =
     (if l = NULL \<and> r = NULL then [(s, d)] else leaf_depths l (Suc d) @ leaf_depths r (Suc d))"

text \<open>The encoding of a symbol and the line \<^verbatim>\<open>printHuffman\<close> prints for it.\<close>

definition code_of :: "node \<Rightarrow> int \<Rightarrow> string" where
  "code_of root i = (case path_to root i of None \<Rightarrow> [] | Some p \<Rightarrow> p)"

definition report_line :: "int list \<Rightarrow> node \<Rightarrow> int \<Rightarrow> line" where
  "report_line a root i = (i, code_of root i, int (length (code_of root i)), a ! nat i)"

text \<open>
  The addition of two \<^verbatim>\<open>int\<close>s on a machine where it wraps around (32 bits, two's
  complement), and the pass of the loop of \<^verbatim>\<open>populateTree\<close> on such a machine: the
  statements of \<open>populateTree_step\<close>, with the sum of the two frequencies wrapped
  instead of checked.
\<close>

definition wrapping_add :: "int \<Rightarrow> int \<Rightarrow> int" where
  "wrapping_add x y = (x + y - INT_MIN) mod 2 ^ 32 + INT_MIN"

definition populateTree_step_wrapping :: "nodeIndex \<Rightarrow> int \<Rightarrow> heap \<Rightarrow> error + (nodeIndex \<times> heap)" where
  "populateTree_step_wrapping index start h =
     (let lchild = start; rchild = start + 1 in
      and_then (read_at (ni_a index) lchild) (\<lambda>ln.
      and_then (node_freq ln) (\<lambda>lf.
      and_then (read_at (ni_a index) rchild) (\<lambda>rn.
      and_then (node_freq rn) (\<lambda>rf.
      and_then (Inr (wrapping_add lf rf)) (\<lambda>newfreq.
      and_then (createNode PNODE newfreq ln rn h) (\<lambda>(parent, h').
      and_then (getInsertionPoint newfreq index start) (\<lambda>insertpoint.
      and_then (write_at (ni_a index) rchild NULL) (\<lambda>a1.
      and_then (write_at a1 lchild NULL) (\<lambda>a2.
      and_then (if insertpoint > start + 1 then memmove a2 0 1 insertpoint else Inr a2) (\<lambda>a3.
      and_then (write_at a3 insertpoint parent) (\<lambda>a4.
      Inr (index\<lparr>ni_a := a4\<rparr>, h')))))))))))))"

section \<open>The binary search\<close>

lemma sdiv2_nonneg: "0 \<le> (k::int) \<Longrightarrow> k sdiv 2 = k div 2"
  by (simp add: signed_divide_int_def sgn_if)

lemma node_freq_eq: "n \<noteq> NULL \<Longrightarrow> node_freq n = Inr (freq_of n)"
  by (cases n) simp_all

lemma searchable_nth:
  assumes "searchable index s" "s \<le> i" "i < ni_len index"
  shows "ni_a index ! nat i \<noteq> NULL"
    and "freq_at (ni_a index) i = Inr (freq_of (ni_a index ! nat i))"
proof -
  from assms have len: "nat i < length (ni_a index)" and s: "nat s \<le> nat i"
    by (auto simp: searchable_def)
  then have "drop (nat s) (ni_a index) ! (nat i - nat s) = ni_a index ! nat i"
    "nat i - nat s < length (drop (nat s) (ni_a index))" by simp_all
  then have "ni_a index ! nat i \<in> set (drop (nat s) (ni_a index))"
    by (metis nth_mem)
  with assms(1) show nn: "ni_a index ! nat i \<noteq> NULL"
    by (auto simp: searchable_def)
  from assms len show "freq_at (ni_a index) i = Inr (freq_of (ni_a index ! nat i))"
    using node_freq_eq [OF nn] by (simp add: freq_at_def read_at_def searchable_def)
qed

lemma nth_drop_diff: "k \<le> i \<Longrightarrow> i < length xs \<Longrightarrow> drop k xs ! (i - k) = xs ! i"
  by simp

lemma searchable_mono:
  assumes "searchable index s" "s \<le> i" "i \<le> j" "j < ni_len index"
  shows "freq_of (ni_a index ! nat i) \<le> freq_of (ni_a index ! nat j)"
proof -
  let ?d = "drop (nat s) (ni_a index)"
  from assms have a: "nat i - nat s \<le> nat j - nat s" "nat j - nat s < length ?d"
    and b: "nat s + (nat i - nat s) = nat i" "nat s + (nat j - nat s) = nat j"
    by (auto simp: searchable_def)
  from assms have "sorted (map freq_of ?d)" by (simp add: searchable_def)
  with a have "map freq_of ?d ! (nat i - nat s) \<le> map freq_of ?d ! (nat j - nat s)"
    by (simp add: sorted_iff_nth_mono del: nth_map)
  moreover have "?d ! (nat i - nat s) = ni_a index ! nat i" "?d ! (nat j - nat s) = ni_a index ! nat j"
    using assms by (simp_all add: nth_drop_diff searchable_def)
  ultimately show ?thesis using a by simp
qed

lemma gip_loop:
  assumes "searchable index s" "s \<le> lo" "hi < ni_len index" "lo \<le> hi + 1"
    and "\<forall>i. s \<le> i \<and> i < lo \<longrightarrow> freq_of (ni_a index ! nat i) < key"
    and "\<forall>i. hi < i \<and> i < ni_len index \<longrightarrow> key < freq_of (ni_a index ! nat i)"
  shows "\<exists>r. getInsertionPoint_loop key index lo hi = Inr r \<and> lo - 1 \<le> r \<and> r \<le> hi \<and>
           ((lo \<le> r \<and> freq_of (ni_a index ! nat r) = key) \<or>
            ((\<forall>i. s \<le> i \<and> i \<le> r \<longrightarrow> freq_of (ni_a index ! nat i) < key) \<and>
             (\<forall>i. r < i \<and> i < ni_len index \<longrightarrow> key < freq_of (ni_a index ! nat i))))"
  using assms
proof (induction key index lo hi rule: getInsertionPoint_loop.induct)
  case (1 key index lo hi)
  note srch = "1.prems"(1) and slo = "1.prems"(2) and hilen = "1.prems"(3)
    and lohi = "1.prems"(4) and below = "1.prems"(5) and above = "1.prems"(6)
  show ?case
  proof (cases "lo \<le> hi")
    case False
    with lohi have "hi = lo - 1" by simp
    with False below above show ?thesis
      by (subst getInsertionPoint_loop.simps) auto
  next
    case True
    define mid where "mid = (lo + hi) sdiv 2"
    from True srch slo have "0 \<le> lo + hi" by (auto simp: searchable_def)
    then have mid: "mid = (lo + hi) div 2" by (simp add: mid_def sdiv2_nonneg)
    with True have bounds: "lo \<le> mid" "mid \<le> hi" by auto
    let ?f = "freq_of (ni_a index ! nat mid)"
    from bounds slo hilen have fa: "freq_at (ni_a index) mid = Inr ?f"
      by (intro searchable_nth(2) [OF srch]) auto
    consider (gt) "key > ?f" | (lt) "key < ?f" | (eq) "key = ?f" by linarith
    then show ?thesis
    proof cases
      case gt
      have below': "\<forall>i. s \<le> i \<and> i < mid + 1 \<longrightarrow> freq_of (ni_a index ! nat i) < key"
      proof (intro allI impI)
        fix i assume "s \<le> i \<and> i < mid + 1"
        with bounds hilen have "freq_of (ni_a index ! nat i) \<le> ?f"
          by (intro searchable_mono [OF srch]) auto
        with gt show "freq_of (ni_a index ! nat i) < key" by simp
      qed
      from bounds slo have "s \<le> mid + 1" "mid + 1 \<le> hi + 1" by auto
      from "1.IH"(1) [OF True fa [unfolded mid_def] gt [unfolded mid_def], folded mid_def,
          OF srch this(1) hilen this(2) below' above]
      obtain r where r: "getInsertionPoint_loop key index (mid + 1) hi = Inr r" "mid \<le> r" "r \<le> hi"
         "((mid + 1 \<le> r \<and> freq_of (ni_a index ! nat r) = key) \<or>
            ((\<forall>i. s \<le> i \<and> i \<le> r \<longrightarrow> freq_of (ni_a index ! nat i) < key) \<and>
             (\<forall>i. r < i \<and> i < ni_len index \<longrightarrow> key < freq_of (ni_a index ! nat i))))" by auto
      have "getInsertionPoint_loop key index lo hi = Inr r"
        using True fa gt r(1) by (subst getInsertionPoint_loop.simps) (simp add: mid_def)
      with r bounds show ?thesis by auto
    next
      case lt
      have above': "\<forall>i. mid - 1 < i \<and> i < ni_len index \<longrightarrow> key < freq_of (ni_a index ! nat i)"
      proof (intro allI impI)
        fix i assume "mid - 1 < i \<and> i < ni_len index"
        with bounds slo have "?f \<le> freq_of (ni_a index ! nat i)"
          by (intro searchable_mono [OF srch]) auto
        with lt show "key < freq_of (ni_a index ! nat i)" by simp
      qed
      from lt have ngt: "\<not> key > ?f" by simp
      from bounds hilen have "mid - 1 < ni_len index" "lo \<le> mid - 1 + 1" by auto
      from "1.IH"(2) [OF True fa [unfolded mid_def] ngt [unfolded mid_def] lt [unfolded mid_def],
          folded mid_def, OF srch slo this(1) this(2) below above']
      obtain r where r: "getInsertionPoint_loop key index lo (mid - 1) = Inr r" "lo - 1 \<le> r" "r \<le> mid - 1"
         "((lo \<le> r \<and> freq_of (ni_a index ! nat r) = key) \<or>
            ((\<forall>i. s \<le> i \<and> i \<le> r \<longrightarrow> freq_of (ni_a index ! nat i) < key) \<and>
             (\<forall>i. r < i \<and> i < ni_len index \<longrightarrow> key < freq_of (ni_a index ! nat i))))" by auto
      have "getInsertionPoint_loop key index lo hi = Inr r"
        using True fa lt r(1) by (subst getInsertionPoint_loop.simps) (simp add: mid_def)
      with r bounds show ?thesis by auto
    next
      case eq
      have "getInsertionPoint_loop key index lo hi = Inr mid"
        using True fa eq by (subst getInsertionPoint_loop.simps) (simp add: mid_def)
      with eq bounds show ?thesis by auto
    qed
  qed
qed

lemma range_take_drop:
  assumes "0 \<le> s" "s - 1 \<le> r" "r < int (length xs)"
  shows "(\<forall>i. s \<le> i \<and> i \<le> r \<longrightarrow> P (xs ! nat i)) \<longleftrightarrow>
         (\<forall>x \<in> set (take (nat (r - s + 1)) (drop (nat s) xs)). P x)" (is "?L = ?R")
    and "(\<forall>i. r < i \<and> i < int (length xs) \<longrightarrow> P (xs ! nat i)) \<longleftrightarrow>
         (\<forall>x \<in> set (drop (nat (r - s + 1)) (drop (nat s) xs)). P x)" (is "?L2 = ?R2")
proof -
  have d: "drop (nat (r - s + 1)) (drop (nat s) xs) = drop (nat (r + 1)) xs"
    using assms by (simp add: nat_add_distrib [symmetric])
  show "?L = ?R"
  proof
    assume L: ?L
    show ?R
    proof
      fix x assume "x \<in> set (take (nat (r - s + 1)) (drop (nat s) xs))"
      then obtain j where j: "j < nat (r - s + 1)" "j < length xs - nat s" "x = xs ! (nat s + j)"
        by (auto simp: in_set_conv_nth)
      with assms have "s \<le> s + int j \<and> s + int j \<le> r" "nat (s + int j) = nat s + j"
        by (auto simp: nat_add_distrib)
      with L j show "P x" by metis
    qed
  next
    assume R: ?R
    show ?L
    proof (intro allI impI)
      fix i assume i: "s \<le> i \<and> i \<le> r"
      with assms have "nat i - nat s < length (take (nat (r - s + 1)) (drop (nat s) xs))"
        by auto
      then have "take (nat (r - s + 1)) (drop (nat s) xs) ! (nat i - nat s)
          \<in> set (take (nat (r - s + 1)) (drop (nat s) xs))"
        by (rule nth_mem)
      moreover have "nat i - nat s < nat (r - s + 1)" "nat s \<le> nat i" "nat i < length xs"
        using i assms by auto
      then have "take (nat (r - s + 1)) (drop (nat s) xs) ! (nat i - nat s) = xs ! nat i"
        by (simp only: nth_take nth_drop_diff)
      ultimately show "P (xs ! nat i)" using R by auto
    qed
  qed
  show "?L2 = ?R2" unfolding d
  proof
    assume L: ?L2
    show "\<forall>x \<in> set (drop (nat (r + 1)) xs). P x"
    proof
      fix x assume "x \<in> set (drop (nat (r + 1)) xs)"
      then obtain j where j: "j < length xs - nat (r + 1)" "x = xs ! (nat (r + 1) + j)"
        by (auto simp: in_set_conv_nth)
      with assms have "r < r + 1 + int j \<and> r + 1 + int j < int (length xs)"
         "nat (r + 1 + int j) = nat (r + 1) + j"
        by (auto simp: nat_add_distrib)
      with L j show "P x" by metis
    qed
  next
    assume R: "\<forall>x \<in> set (drop (nat (r + 1)) xs). P x"
    show ?L2
    proof (intro allI impI)
      fix i assume i: "r < i \<and> i < int (length xs)"
      with assms have "nat i - nat (r + 1) < length (drop (nat (r + 1)) xs)"
        by auto
      then have "drop (nat (r + 1)) xs ! (nat i - nat (r + 1)) \<in> set (drop (nat (r + 1)) xs)"
        by (rule nth_mem)
      moreover have "nat (r + 1) \<le> nat i" "nat i < length xs"
        using i assms by auto
      then have "drop (nat (r + 1)) xs ! (nat i - nat (r + 1)) = xs ! nat i"
        by (simp only: nth_drop_diff)
      ultimately show "P (xs ! nat i)" using R by auto
    qed
  qed
qed

lemma gip_result:
  assumes "searchable index s" "s \<le> ni_len index"
  shows "\<exists>r. getInsertionPoint key index s = Inr r \<and> s - 1 \<le> r \<and> r < ni_len index \<and>
           ((s \<le> r \<and> freq_of (ni_a index ! nat r) = key) \<or>
            ((\<forall>i. s \<le> i \<and> i \<le> r \<longrightarrow> freq_of (ni_a index ! nat i) < key) \<and>
             (\<forall>i. r < i \<and> i < ni_len index \<longrightarrow> key < freq_of (ni_a index ! nat i))))"
  unfolding getInsertionPoint_def
  using gip_loop [OF assms(1), of s "ni_len index - 1" key] assms(2) by auto

lemma gip_fits:
  assumes "searchable index s" "s \<le> ni_len index" "getInsertionPoint key index s = Inr r"
  shows "(\<forall>i. s \<le> i \<and> i \<le> r \<longrightarrow> freq_of (ni_a index ! nat i) \<le> key)"
    and "(\<forall>i. r < i \<and> i < ni_len index \<longrightarrow> key \<le> freq_of (ni_a index ! nat i))"
proof -
  from gip_result [OF assms(1,2), of key] assms(3)
  have r: "s - 1 \<le> r" "r < ni_len index"
    and c: "(s \<le> r \<and> freq_of (ni_a index ! nat r) = key) \<or>
            ((\<forall>i. s \<le> i \<and> i \<le> r \<longrightarrow> freq_of (ni_a index ! nat i) < key) \<and>
             (\<forall>i. r < i \<and> i < ni_len index \<longrightarrow> key < freq_of (ni_a index ! nat i)))"
    by auto
  show "\<forall>i. s \<le> i \<and> i \<le> r \<longrightarrow> freq_of (ni_a index ! nat i) \<le> key"
  proof (intro allI impI)
    fix i assume i: "s \<le> i \<and> i \<le> r"
    from c show "freq_of (ni_a index ! nat i) \<le> key"
    proof
      assume "s \<le> r \<and> freq_of (ni_a index ! nat r) = key"
      with searchable_mono [OF assms(1), of i r] i r show ?thesis by auto
    next
      assume "(\<forall>i. s \<le> i \<and> i \<le> r \<longrightarrow> freq_of (ni_a index ! nat i) < key) \<and>
             (\<forall>i. r < i \<and> i < ni_len index \<longrightarrow> key < freq_of (ni_a index ! nat i))"
      with i show ?thesis by force
    qed
  qed
  show "\<forall>i. r < i \<and> i < ni_len index \<longrightarrow> key \<le> freq_of (ni_a index ! nat i)"
  proof (intro allI impI)
    fix i assume i: "r < i \<and> i < ni_len index"
    from c show "key \<le> freq_of (ni_a index ! nat i)"
    proof
      assume "s \<le> r \<and> freq_of (ni_a index ! nat r) = key"
      with searchable_mono [OF assms(1), of r i] i r show ?thesis by auto
    next
      assume "(\<forall>i. s \<le> i \<and> i \<le> r \<longrightarrow> freq_of (ni_a index ! nat i) < key) \<and>
             (\<forall>i. r < i \<and> i < ni_len index \<longrightarrow> key < freq_of (ni_a index ! nat i))"
      with i show ?thesis by force
    qed
  qed
qed

lemma nth_in_drop: "k \<le> i \<Longrightarrow> i < length xs \<Longrightarrow> xs ! i \<in> set (drop k xs)"
proof -
  assume a: "k \<le> i" "i < length xs"
  then have "i - k < length (drop k xs)" by simp
  then have "drop k xs ! (i - k) \<in> set (drop k xs)" by (rule nth_mem)
  with a show ?thesis by (simp only: nth_drop_diff)
qed

lemma fits_iff:
  assumes "0 \<le> s" "ni_len index = int (length (ni_a index))"
  shows "fits key index s r \<longleftrightarrow> s - 1 \<le> r \<and> r < ni_len index \<and>
     (\<forall>i. s \<le> i \<and> i \<le> r \<longrightarrow> freq_of (ni_a index ! nat i) \<le> key) \<and>
     (\<forall>i. r < i \<and> i < ni_len index \<longrightarrow> key \<le> freq_of (ni_a index ! nat i))"
proof (cases "s - 1 \<le> r \<and> r < ni_len index")
  case True
  then show ?thesis
    using range_take_drop [of s r "ni_a index" "\<lambda>n. freq_of n \<le> key"]
      range_take_drop [of s r "ni_a index" "\<lambda>n. key \<le> freq_of n"] assms
    by (simp add: fits_def live_def list_all_iff)
next
  case False
  then show ?thesis by (auto simp: fits_def)
qed

lemma getInsertionPoint_fits:
  assumes "searchable index s" "s \<le> ni_len index" "getInsertionPoint key index s = Inr r"
  shows "fits key index s r"
proof -
  from gip_result [OF assms(1,2), of key] assms(3) have "s - 1 \<le> r" "r < ni_len index" by auto
  with gip_fits [OF assms] assms(1) show ?thesis
    by (subst fits_iff) (auto simp: searchable_def)
qed

lemma split_count:
  assumes "\<forall>x \<in> set (take m ys). P x" "\<forall>x \<in> set (drop m ys). \<not> P x" "m \<le> length ys"
  shows "length (filter P ys) = m"
proof -
  have "filter P ys = filter P (take m ys @ drop m ys)" by simp
  also have "\<dots> = take m ys" using assms(1,2) by (simp only: filter_append) simp
  finally show ?thesis using assms(3) by simp
qed

text \<open>
  Claim C4, as the code has it. On an array that is sorted from \<open>start\<close> on,
  \<^verbatim>\<open>getInsertionPoint\<close> returns a position that keeps the order (\<open>fits\<close>). If some
  entry of the searched range has the frequency \<open>key\<close>, the position returned holds an
  entry of that frequency: the one the search probes first, which need not be the
  rightmost. If no entry has it, the result is \<open>low - 1\<close>, where \<open>low\<close> is \<open>start\<close> plus the
  number of entries below \<open>key\<close>: the position just before the place where \<open>key\<close> would
  be inserted.
\<close>

theorem getInsertionPoint_contract:
  assumes "searchable index start" "start \<le> ni_len index"
  shows "\<exists>r. getInsertionPoint key index start = Inr r \<and> fits key index start r \<and>
          (if key \<in> set (map freq_of (live index start))
           then start \<le> r \<and> freq_at (ni_a index) r = Inr key
           else r = start + int (length (filter (\<lambda>n. freq_of n < key) (live index start))) - 1)"
proof -
  from gip_result [OF assms, of key] obtain r where
    r: "getInsertionPoint key index start = Inr r" "start - 1 \<le> r" "r < ni_len index"
    and c: "(start \<le> r \<and> freq_of (ni_a index ! nat r) = key) \<or>
            ((\<forall>i. start \<le> i \<and> i \<le> r \<longrightarrow> freq_of (ni_a index ! nat i) < key) \<and>
             (\<forall>i. r < i \<and> i < ni_len index \<longrightarrow> key < freq_of (ni_a index ! nat i)))"
    by auto
  from assms(1) have len: "ni_len index = int (length (ni_a index))" and s0: "0 \<le> start"
    by (auto simp: searchable_def)
  have f: "fits key index start r" by (rule getInsertionPoint_fits [OF assms r(1)])
  let ?lv = "live index start"
  have third: "if key \<in> set (map freq_of ?lv)
           then start \<le> r \<and> freq_at (ni_a index) r = Inr key
           else r = start + int (length (filter (\<lambda>n. freq_of n < key) ?lv)) - 1"
  proof (cases "key \<in> set (map freq_of ?lv)")
    case True
    have "start \<le> r \<and> freq_of (ni_a index ! nat r) = key"
    proof (rule ccontr)
      assume "\<not> ?thesis"
      with c have lt: "\<forall>i. start \<le> i \<and> i \<le> r \<longrightarrow> freq_of (ni_a index ! nat i) < key"
        and gt: "\<forall>i. r < i \<and> i < ni_len index \<longrightarrow> key < freq_of (ni_a index ! nat i)" by auto
      from lt have "\<forall>x\<in>set (take (nat (r - start + 1)) ?lv). freq_of x < key"
        using range_take_drop(1) [of start r "ni_a index" "\<lambda>n. freq_of n < key"] s0 r len
        by (simp add: live_def)
      moreover from gt have "\<forall>x\<in>set (drop (nat (r - start + 1)) ?lv). key < freq_of x"
        using range_take_drop(2) [of start r "ni_a index" "\<lambda>n. key < freq_of n"] s0 r len
        by (simp add: live_def)
      ultimately have "\<forall>x \<in> set (take (nat (r - start + 1)) ?lv @ drop (nat (r - start + 1)) ?lv). freq_of x \<noteq> key"
        by (simp only: set_append) fastforce
      then have "key \<notin> set (map freq_of ?lv)" by auto
      with True show False by simp
    qed
    with True r assms show ?thesis
      using searchable_nth(2) [OF assms(1), of r] by simp
  next
    case False
    with c have nomatch: "\<not> (start \<le> r \<and> freq_of (ni_a index ! nat r) = key)"
    proof -
      { assume a: "start \<le> r \<and> freq_of (ni_a index ! nat r) = key"
        with r s0 len have "nat start \<le> nat r" "nat r < length (ni_a index)"
          by auto
        then have "ni_a index ! nat r \<in> set ?lv"
          unfolding live_def by (rule nth_in_drop)
        with a have "key \<in> set (map freq_of ?lv)" by force
        with False have False by simp }
      then show ?thesis by blast
    qed
    with c have lt: "\<forall>i. start \<le> i \<and> i \<le> r \<longrightarrow> freq_of (ni_a index ! nat i) < key"
        and gt: "\<forall>i. r < i \<and> i < ni_len index \<longrightarrow> key < freq_of (ni_a index ! nat i)" by auto
    from lt have 1: "\<forall>x\<in>set (take (nat (r - start + 1)) ?lv). freq_of x < key"
      using range_take_drop(1) [of start r "ni_a index" "\<lambda>n. freq_of n < key"] s0 r len
      by (simp add: live_def)
    from gt have 2: "\<forall>x\<in>set (drop (nat (r - start + 1)) ?lv). \<not> freq_of x < key"
      using range_take_drop(2) [of start r "ni_a index" "\<lambda>n. key < freq_of n"] s0 r len
      by (simp add: live_def) force
    have "nat (r - start + 1) \<le> length ?lv" using r s0 len by (simp add: live_def)
    from split_count [OF 1 2 this] r have "r = start + int (length (filter (\<lambda>n. freq_of n < key) ?lv)) - 1"
      by simp
    with False show ?thesis by simp
  qed
  from r(1) f third show ?thesis by blast
qed

theorem getInsertionPoint_contract_witness:
  "searchable \<lparr>ni_a = [Node 1 97 NULL NULL, Node 3 98 NULL NULL, Node 5 99 NULL NULL,
       Node 7 100 NULL NULL], ni_len = 4\<rparr> 0 \<and>
   (\<exists>r. getInsertionPoint 4 \<lparr>ni_a = [Node 1 97 NULL NULL, Node 3 98 NULL NULL, Node 5 99 NULL NULL,
       Node 7 100 NULL NULL], ni_len = 4\<rparr> 0 = Inr r \<and> r = 1)"
proof -
  let ?ix = "\<lparr>ni_a = [Node 1 97 NULL NULL, Node 3 98 NULL NULL, Node 5 99 NULL NULL,
       Node 7 100 NULL NULL], ni_len = 4\<rparr>"
  have h1: "searchable ?ix 0" by (simp add: searchable_def)
  have h2: "0 \<le> ni_len ?ix" by simp
  from getInsertionPoint_contract [OF h1 h2, of 4] h1 show ?thesis
    by (simp add: live_def)
qed

text \<open>
  Claim C4 as stated fails where several entries have the frequency \<open>key\<close>: in an
  array of three nodes of frequency 5 the search for 5 returns position 1, while
  position 2 holds the same frequency, keeps the order as well and is the rightmost
  such position.
\<close>

theorem getInsertionPoint_not_rightmost:
  "searchable \<lparr>ni_a = [Node 5 97 NULL NULL, Node 5 98 NULL NULL, Node 5 99 NULL NULL], ni_len = 3\<rparr> 0 \<and>
   getInsertionPoint 5
     \<lparr>ni_a = [Node 5 97 NULL NULL, Node 5 98 NULL NULL, Node 5 99 NULL NULL], ni_len = 3\<rparr> 0 = Inr 1 \<and>
   freq_at [Node 5 97 NULL NULL, Node 5 98 NULL NULL, Node 5 99 NULL NULL] 2 = Inr 5 \<and>
   fits 5 \<lparr>ni_a = [Node 5 97 NULL NULL, Node 5 98 NULL NULL, Node 5 99 NULL NULL], ni_len = 3\<rparr> 0 2 \<and>
   rightmost_fit 5
     \<lparr>ni_a = [Node 5 97 NULL NULL, Node 5 98 NULL NULL, Node 5 99 NULL NULL], ni_len = 3\<rparr> 0 = 2"
  by (simp add: searchable_def getInsertionPoint_def getInsertionPoint_loop.simps freq_at_def
      read_at_def fits_def live_def rightmost_fit_def)

section \<open>One pass of the merge loop\<close>

lemma createNode_ok:
  "blocks_left h \<noteq> 0 \<Longrightarrow>
   createNode s f l r h = Inr (Node f s l r, h\<lparr>blocks_left := blocks_left h - 1, nodes_made := Suc (nodes_made h)\<rparr>)"
  by (simp add: createNode_def alloc_def)

lemma shift_insert:
  assumes "k + 1 < m" "m < length xs"
  shows "drop (Suc k) ((take m (drop (Suc 0) (xs[Suc k := u, k := v])) @ drop m (xs[Suc k := u, k := v]))[m := p])
         = take (m - k - 1) (drop (k + 2) xs) @ p # drop (m + 1) xs"
proof -
  let ?a2 = "xs[Suc k := u, k := v]"
  have len: "length (take m (drop (Suc 0) ?a2)) = m" using assms by simp
  have "(take m (drop (Suc 0) ?a2) @ drop m ?a2)[m := p] = take m (drop (Suc 0) ?a2) @ (drop m ?a2)[0 := p]"
    using len by (simp add: list_update_append)
  also have "(drop m ?a2)[0 := p] = p # drop (m + 1) ?a2"
    using assms Cons_nth_drop_Suc [of m ?a2, symmetric] by simp
  also have "drop (m + 1) ?a2 = drop (m + 1) xs"
    using assms by simp
  also have "drop (Suc k) (take m (drop (Suc 0) ?a2) @ p # drop (m + 1) xs)
      = drop (Suc k) (take m (drop (Suc 0) ?a2)) @ p # drop (m + 1) xs"
    using assms by simp
  also have "drop (Suc k) (take m (drop (Suc 0) ?a2)) = take (m - k - 1) (drop (k + 2) ?a2)"
    by (simp add: drop_take)
  also have "drop (k + 2) ?a2 = drop (k + 2) xs"
    by simp
  finally show ?thesis .
qed

lemma step_result:
  assumes srch: "searchable index (int k)" and guard: "int k + 1 < ni_len index"
    and key: "key = freq_of (ni_a index ! k) + freq_of (ni_a index ! Suc k)"
    and rng: "INT_MIN \<le> key" "key \<le> INT_MAX"
    and heap: "blocks_left h \<noteq> 0"
    and ip: "getInsertionPoint key index (int k) = Inr ip" "int k + 1 \<le> ip" "ip < ni_len index"
  shows "\<exists>xs'. populateTree_step index (int k) h =
           Inr (index\<lparr>ni_a := xs'\<rparr>, h\<lparr>blocks_left := blocks_left h - 1, nodes_made := Suc (nodes_made h)\<rparr>)
         \<and> length xs' = length (ni_a index)
         \<and> drop (Suc k) xs' = take (nat ip - k - 1) (drop (k + 2) (ni_a index))
              @ Node key PNODE (ni_a index ! k) (ni_a index ! Suc k) # drop (nat ip + 1) (ni_a index)
         \<and> ((\<forall>i<k. ni_a index ! i = NULL) \<longrightarrow> (\<forall>i<Suc k. xs' ! i = NULL))"
proof -
  let ?xs = "ni_a index"
  let ?p = "Node key PNODE (?xs ! k) (?xs ! Suc k)"
  from srch guard have len: "ni_len index = int (length ?xs)" "Suc k < length ?xs"
    by (auto simp: searchable_def)
  have r1: "read_at ?xs (int k) = Inr (?xs ! k)" "read_at ?xs (int k + 1) = Inr (?xs ! Suc k)"
    using len by (auto simp: read_at_def nat_add_distrib)
  have nn: "?xs ! k \<noteq> NULL" "?xs ! Suc k \<noteq> NULL"
    using searchable_nth(1) [OF srch, of "int k"] searchable_nth(1) [OF srch, of "int k + 1"] guard
    by (auto simp: nat_add_distrib)
  have add: "int_add (freq_of (?xs ! k)) (freq_of (?xs ! Suc k)) = Inr key"
    using key rng by (simp add: int_add_def)
  have w: "write_at ?xs (int k + 1) NULL = Inr (?xs[Suc k := NULL])"
    "write_at (?xs[Suc k := NULL]) (int k) NULL = Inr (?xs[Suc k := NULL, k := NULL])"
    using len by (auto simp: write_at_def nat_add_distrib)
  let ?a2 = "?xs[Suc k := NULL, k := NULL]"
  show ?thesis
  proof (cases "ip > int k + 1")
    case True
    define m where "m = nat ip"
    with True ip len have m: "k + 1 < m" "m < length ?xs" "ip = int m" by auto
    have mm: "memmove ?a2 0 1 ip = Inr (take m (drop (Suc 0) ?a2) @ drop m ?a2)"
      using m by (simp add: memmove_def)
    have w2: "write_at (take m (drop (Suc 0) ?a2) @ drop m ?a2) ip ?p
       = Inr ((take m (drop (Suc 0) ?a2) @ drop m ?a2)[m := ?p])"
      using m by (simp add: write_at_def)
    have "populateTree_step index (int k) h =
           Inr (index\<lparr>ni_a := (take m (drop (Suc 0) ?a2) @ drop m ?a2)[m := ?p]\<rparr>,
                h\<lparr>blocks_left := blocks_left h - 1, nodes_made := Suc (nodes_made h)\<rparr>)"
      using True by (simp add: populateTree_step_def and_then_def r1 node_freq_eq nn add
          createNode_ok [OF heap] ip(1) w mm w2)
    moreover have "length ((take m (drop (Suc 0) ?a2) @ drop m ?a2)[m := ?p]) = length ?xs"
      using m by simp
    moreover have "nat ip = m" using m by simp
    moreover have "(\<forall>i<k. ?xs ! i = NULL) \<longrightarrow>
        (\<forall>i<Suc k. (take m (drop (Suc 0) ?a2) @ drop m ?a2)[m := ?p] ! i = NULL)"
    proof (intro impI allI)
      fix i assume a: "\<forall>i<k. ?xs ! i = NULL" and "i < Suc k"
      with m have i: "i < m" "i \<noteq> m" "Suc i < length ?xs" "Suc i \<le> Suc k" by auto
      then have "(take m (drop (Suc 0) ?a2) @ drop m ?a2)[m := ?p] ! i = ?a2 ! Suc i"
        using m by (simp add: nth_append)
      also have "\<dots> = NULL" using i a len by (auto simp: nth_list_update)
      finally show "(take m (drop (Suc 0) ?a2) @ drop m ?a2)[m := ?p] ! i = NULL" .
    qed
    ultimately show ?thesis using shift_insert [OF m(1,2), of NULL NULL ?p]
      by (intro exI [of _ "(take m (drop (Suc 0) ?a2) @ drop m ?a2)[m := ?p]"]) simp
  next
    case False
    with ip have eq: "ip = int (Suc k)" by simp
    have w2: "write_at ?a2 ip ?p = Inr (?a2[Suc k := ?p])"
      using len eq by (simp add: write_at_def nat_add_distrib)
    have "populateTree_step index (int k) h =
           Inr (index\<lparr>ni_a := ?a2[Suc k := ?p]\<rparr>,
                h\<lparr>blocks_left := blocks_left h - 1, nodes_made := Suc (nodes_made h)\<rparr>)"
      using False by (simp add: populateTree_step_def and_then_def r1 node_freq_eq nn add
          createNode_ok [OF heap] ip(1) w w2)
    moreover have "drop (Suc k) (?a2[Suc k := ?p]) = ?p # drop (k + 2) ?xs"
    proof -
      have "?a2[Suc k := ?p] = take (Suc k) ?a2 @ ?p # drop (Suc (Suc k)) ?a2"
        by (rule upd_conv_take_nth_drop) (use len in simp)
      then have "drop (Suc k) (?a2[Suc k := ?p]) = ?p # drop (Suc (Suc k)) ?a2"
        using len by simp
      then show ?thesis by simp
    qed
    moreover have "nat ip = Suc k" using eq by simp
    moreover have "(\<forall>i<k. ?xs ! i = NULL) \<longrightarrow> (\<forall>i<Suc k. ?a2[Suc k := ?p] ! i = NULL)"
      using len by (auto simp: nth_list_update)
    ultimately show ?thesis
      by (intro exI [of _ "?a2[Suc k := ?p]"]) simp
  qed
qed

lemma gip_after_pair:
  assumes srch: "searchable index s" and guard: "s + 1 < ni_len index"
    and pos: "0 < freq_of (ni_a index ! nat s)" "0 < freq_of (ni_a index ! nat (s + 1))"
    and key: "key = freq_of (ni_a index ! nat s) + freq_of (ni_a index ! nat (s + 1))"
  shows "\<exists>r. getInsertionPoint key index s = Inr r \<and> s + 1 \<le> r \<and> r < ni_len index"
proof -
  from guard have "s \<le> ni_len index" by simp
  from gip_result [OF srch this, of key] obtain r where
    r: "getInsertionPoint key index s = Inr r" "s - 1 \<le> r" "r < ni_len index"
    and c: "(s \<le> r \<and> freq_of (ni_a index ! nat r) = key) \<or>
            ((\<forall>i. s \<le> i \<and> i \<le> r \<longrightarrow> freq_of (ni_a index ! nat i) < key) \<and>
             (\<forall>i. r < i \<and> i < ni_len index \<longrightarrow> key < freq_of (ni_a index ! nat i)))"
    by auto
  from c have "s + 1 \<le> r"
  proof
    assume a: "s \<le> r \<and> freq_of (ni_a index ! nat r) = key"
    show ?thesis
    proof (rule ccontr)
      assume "\<not> s + 1 \<le> r"
      with a have "r = s" by simp
      with a key pos show False by simp
    qed
  next
    assume a: "(\<forall>i. s \<le> i \<and> i \<le> r \<longrightarrow> freq_of (ni_a index ! nat i) < key) \<and>
             (\<forall>i. r < i \<and> i < ni_len index \<longrightarrow> key < freq_of (ni_a index ! nat i))"
    show ?thesis
    proof (rule ccontr)
      assume "\<not> s + 1 \<le> r"
      with guard a have "key < freq_of (ni_a index ! nat (s + 1))" by simp
      with key pos show False by simp
    qed
  qed
  with r show ?thesis by blast
qed

lemma step_ok:
  assumes srch: "searchable index s" and guard: "s + 1 < ni_len index"
    and pos: "0 < freq_of (ni_a index ! nat s)" "0 < freq_of (ni_a index ! nat (s + 1))"
    and key: "key = freq_of (ni_a index ! nat s) + freq_of (ni_a index ! nat (s + 1))"
    and rng: "INT_MIN \<le> key" "key \<le> INT_MAX" and heap: "blocks_left h \<noteq> 0"
  shows "\<exists>xs' r. getInsertionPoint key index s = Inr r \<and> s + 1 \<le> r \<and> r < ni_len index \<and>
       populateTree_step index s h =
           Inr (index\<lparr>ni_a := xs'\<rparr>, h\<lparr>blocks_left := blocks_left h - 1, nodes_made := Suc (nodes_made h)\<rparr>)
         \<and> length xs' = length (ni_a index)
         \<and> live (index\<lparr>ni_a := xs'\<rparr>) (s + 1) = take (nat (r - s - 1)) (live index (s + 2))
              @ Node key PNODE (ni_a index ! nat s) (ni_a index ! nat (s + 1)) # drop (nat (r - s - 1)) (live index (s + 2))
         \<and> ((\<forall>i<nat s. ni_a index ! i = NULL) \<longrightarrow> (\<forall>i<nat (s + 1). xs' ! i = NULL))"
proof -
  let ?xs = "ni_a index"
  define k where "k = nat s"
  from srch have s: "s = int k" "0 \<le> s" and len: "ni_len index = int (length ?xs)"
    by (auto simp: searchable_def k_def)
  have sk: "nat (s + 1) = Suc k" using s by simp
  from gip_after_pair [OF srch guard pos key] obtain r where
    r: "getInsertionPoint key index s = Inr r" "s + 1 \<le> r" "r < ni_len index" by blast
  have key': "key = freq_of (?xs ! k) + freq_of (?xs ! Suc k)" using key sk by (simp add: k_def)
  from step_result [OF srch [unfolded s(1)] guard [unfolded s(1)] key' rng heap
      r(1) [unfolded s(1)] r(2) [unfolded s(1)] r(3)]
  obtain xs' where x: "populateTree_step index (int k) h =
       Inr (index\<lparr>ni_a := xs'\<rparr>, h\<lparr>blocks_left := blocks_left h - 1, nodes_made := Suc (nodes_made h)\<rparr>)"
     "length xs' = length ?xs"
     "drop (Suc k) xs' = take (nat r - k - 1) (drop (k + 2) ?xs)
          @ Node key PNODE (?xs ! k) (?xs ! Suc k) # drop (nat r + 1) ?xs"
     "(\<forall>i<k. ?xs ! i = NULL) \<longrightarrow> (\<forall>i<Suc k. xs' ! i = NULL)"
    by blast
  have e1: "nat (r - s - 1) = nat r - k - 1" "nat (s + 2) = k + 2" using s r by auto
  have "nat r - k - 1 + (k + 2) = nat r + 1" using s r by auto
  then have e2: "drop (nat r - k - 1) (drop (k + 2) ?xs) = drop (nat r + 1) ?xs"
    by (simp only: drop_drop)
  have e3: "nat s = k" by (simp add: k_def)
  have e4: "ni_a (index\<lparr>ni_a := xs'\<rparr>) = xs'" by simp
  have "live (index\<lparr>ni_a := xs'\<rparr>) (s + 1) = take (nat (r - s - 1)) (live index (s + 2))
          @ Node key PNODE (?xs ! nat s) (?xs ! nat (s + 1)) # drop (nat (r - s - 1)) (live index (s + 2))"
    unfolding live_def by (simp only: e4 sk e1 e2 e3 x(3))
  moreover have "(\<forall>i<nat s. ?xs ! i = NULL) \<longrightarrow> (\<forall>i<nat (s + 1). xs' ! i = NULL)"
    using x(4) by (simp only: sk e3)
  ultimately show ?thesis using x(1) [folded s(1)] x(2) r by blast
qed

lemma live_pair:
  assumes "0 \<le> s" "s + 1 < int (length (ni_a index))"
  shows "live index s = ni_a index ! nat s # ni_a index ! nat (s + 1) # live index (s + 2)"
proof -
  from assms have "nat s < length (ni_a index)" "Suc (nat s) < length (ni_a index)"
    "nat (s + 1) = Suc (nat s)" "nat (s + 2) = Suc (Suc (nat s))" by auto
  then show ?thesis
    by (simp add: live_def Cons_nth_drop_Suc)
qed

lemma step_alloc_failed:
  assumes srch: "searchable index s" and guard: "s + 1 < ni_len index"
    and rng: "INT_MIN \<le> freq_of (ni_a index ! nat s) + freq_of (ni_a index ! nat (s + 1))"
      "freq_of (ni_a index ! nat s) + freq_of (ni_a index ! nat (s + 1)) \<le> INT_MAX"
    and heap: "blocks_left h = 0"
  shows "populateTree_step index s h = Inl AllocFailed"
proof -
  let ?xs = "ni_a index"
  define k where "k = nat s"
  from srch have s: "s = int k" "0 \<le> s" and len: "ni_len index = int (length ?xs)"
    by (auto simp: searchable_def k_def)
  have sk: "nat (s + 1) = Suc k" using s by simp
  from guard len s have klen: "Suc k < length ?xs" by simp
  have r1: "read_at ?xs s = Inr (?xs ! k)" "read_at ?xs (s + 1) = Inr (?xs ! Suc k)"
    using len klen s by (auto simp: read_at_def nat_add_distrib)
  have nn: "?xs ! k \<noteq> NULL" "?xs ! Suc k \<noteq> NULL"
    using searchable_nth(1) [OF srch, of "int k"] searchable_nth(1) [OF srch, of "int k + 1"] guard s
    by (auto simp: nat_add_distrib)
  have "int_add (freq_of (?xs ! k)) (freq_of (?xs ! Suc k)) =
      Inr (freq_of (?xs ! k) + freq_of (?xs ! Suc k))"
    using rng sk by (auto simp: int_add_def k_def)
  moreover have "createNode PNODE (freq_of (?xs ! k) + freq_of (?xs ! Suc k)) (?xs ! k) (?xs ! Suc k) h
      = Inl AllocFailed"
    using heap by (simp add: createNode_def alloc_def)
  ultimately show ?thesis
    by (simp add: populateTree_step_def and_then_def r1 node_freq_eq nn)
qed

lemma wrapping_add_in_range:
  "INT_MIN \<le> x + y \<Longrightarrow> x + y \<le> INT_MAX \<Longrightarrow> wrapping_add x y = x + y"
  by (simp add: wrapping_add_def INT_MIN_def INT_MAX_def)

lemma wrapping_step_in_range:
  assumes "\<And>ln rn. read_at (ni_a index) s = Inr ln \<Longrightarrow> read_at (ni_a index) (s + 1) = Inr rn \<Longrightarrow>
     INT_MIN \<le> freq_of ln + freq_of rn \<and> freq_of ln + freq_of rn \<le> INT_MAX"
  shows "populateTree_step_wrapping index s h = populateTree_step index s h"
proof (cases "read_at (ni_a index) s")
  case (Inl e)
  then show ?thesis by (simp add: populateTree_step_wrapping_def populateTree_step_def and_then_def)
next
  case ln: (Inr ln)
  show ?thesis
  proof (cases ln)
    case NULL
    with ln show ?thesis
      by (simp add: populateTree_step_wrapping_def populateTree_step_def and_then_def)
  next
    case (Node lf ls ll lr)
    show ?thesis
    proof (cases "read_at (ni_a index) (s + 1)")
      case (Inl e)
      with ln Node show ?thesis
        by (simp add: populateTree_step_wrapping_def populateTree_step_def and_then_def)
    next
      case rn: (Inr rn)
      show ?thesis
      proof (cases rn)
        case NULL
        with ln Node rn show ?thesis
          by (simp add: populateTree_step_wrapping_def populateTree_step_def and_then_def)
      next
        case rnode: (Node rf rs rl rr)
        from assms [OF ln rn] Node rnode have "INT_MIN \<le> lf + rf" "lf + rf \<le> INT_MAX" by simp_all
        then have "int_add lf rf = Inr (wrapping_add lf rf)"
          by (simp add: int_add_def wrapping_add_in_range)
        with ln Node rn rnode show ?thesis
          by (simp add: populateTree_step_wrapping_def populateTree_step_def and_then_def)
      qed
    qed
  qed
qed

text \<open>
  Claim C9. In a pass of the merge loop (\<open>start + 1 < len\<close>) over an array that holds,
  from \<open>start\<close> on, nodes of strictly positive frequency in ascending order, and in which
  the sum of the frequencies at \<open>start\<close> and \<open>start + 1\<close> is at most \<^verbatim>\<open>INT_MAX\<close>, the
  addition yields that sum and \<^verbatim>\<open>getInsertionPoint\<close> called with it returns a position
  between \<open>start + 1\<close> and \<open>len - 1\<close>. The pass never reads or writes outside the array,
  never follows a null pointer and does not overflow; a machine with wrapping addition
  runs it with the same result. It ends in one of two ways: \<^verbatim>\<open>createNode\<close> finds no memory
  and the program exits, or the pass completes, the array keeps its length, and the
  frontier from \<open>start + 1\<close> on is the frontier it had from \<open>start + 2\<close> on with the parent
  put in at the position returned: the parent has replaced no entry that was still in use.
\<close>

theorem insertion_point_in_live_range:
  assumes "searchable index start" "start + 1 < ni_len index"
    and "list_all (\<lambda>n. 0 < freq_of n) (live index start)"
    and "freq_of (ni_a index ! nat start) + freq_of (ni_a index ! nat (start + 1)) \<le> INT_MAX"
  shows "\<exists>r. int_add (freq_of (ni_a index ! nat start)) (freq_of (ni_a index ! nat (start + 1))) =
              Inr (freq_of (ni_a index ! nat start) + freq_of (ni_a index ! nat (start + 1))) \<and>
           getInsertionPoint (freq_of (ni_a index ! nat start) + freq_of (ni_a index ! nat (start + 1)))
              index start = Inr r \<and>
           start + 1 \<le> r \<and> r \<le> ni_len index - 1 \<and>
           populateTree_step index start h \<noteq> Inl OutOfBounds \<and>
           populateTree_step index start h \<noteq> Inl NullDeref \<and>
           populateTree_step index start h \<noteq> Inl IntOverflow \<and>
           populateTree_step_wrapping index start h = populateTree_step index start h \<and>
           (blocks_left h = 0 \<longrightarrow> populateTree_step index start h = Inl AllocFailed) \<and>
           (blocks_left h \<noteq> 0 \<longrightarrow>
              (\<exists>xs'. populateTree_step index start h =
                 Inr (index\<lparr>ni_a := xs'\<rparr>,
                      h\<lparr>blocks_left := blocks_left h - 1, nodes_made := Suc (nodes_made h)\<rparr>) \<and>
               length xs' = length (ni_a index) \<and>
               live (index\<lparr>ni_a := xs'\<rparr>) (start + 1) =
                 take (nat (r - start - 1)) (live index (start + 2)) @
                 Node (freq_of (ni_a index ! nat start) + freq_of (ni_a index ! nat (start + 1))) PNODE
                    (ni_a index ! nat start) (ni_a index ! nat (start + 1)) #
                 drop (nat (r - start - 1)) (live index (start + 2))))"
proof -
  let ?l = "ni_a index ! nat start" and ?r = "ni_a index ! nat (start + 1)"
  from assms(1,2) have s0: "0 \<le> start" and len: "start + 1 < int (length (ni_a index))"
    by (auto simp: searchable_def)
  from assms(3) live_pair [OF s0 len] have pos: "0 < freq_of ?l" "0 < freq_of ?r"
    by simp_all
  from pos have lo: "INT_MIN \<le> freq_of ?l + freq_of ?r" by (simp add: INT_MIN_def)
  note hi = assms(4)
  have add: "int_add (freq_of ?l) (freq_of ?r) = Inr (freq_of ?l + freq_of ?r)"
    using lo hi by (simp add: int_add_def)
  from gip_after_pair [OF assms(1,2) pos refl] obtain r where
    r: "getInsertionPoint (freq_of ?l + freq_of ?r) index start = Inr r" "start + 1 \<le> r" "r < ni_len index"
    by blast
  have rd: "read_at (ni_a index) start = Inr ?l" "read_at (ni_a index) (start + 1) = Inr ?r"
    using s0 len by (simp_all add: read_at_def)
  have wr: "populateTree_step_wrapping index start h = populateTree_step index start h"
    by (rule wrapping_step_in_range) (use rd lo hi in simp)
  show ?thesis
  proof (cases "blocks_left h = 0")
    case True
    from step_alloc_failed [OF assms(1,2) lo hi True]
    have "populateTree_step index start h = Inl AllocFailed" .
    with True add r wr show ?thesis by (intro exI [of _ r]) simp
  next
    case False
    from step_ok [OF assms(1,2) pos refl lo hi False] obtain xs' r' where
      x: "getInsertionPoint (freq_of ?l + freq_of ?r) index start = Inr r'"
         "populateTree_step index start h =
           Inr (index\<lparr>ni_a := xs'\<rparr>, h\<lparr>blocks_left := blocks_left h - 1, nodes_made := Suc (nodes_made h)\<rparr>)"
         "length xs' = length (ni_a index)"
         "live (index\<lparr>ni_a := xs'\<rparr>) (start + 1) = take (nat (r' - start - 1)) (live index (start + 2))
              @ Node (freq_of ?l + freq_of ?r) PNODE ?l ?r # drop (nat (r' - start - 1)) (live index (start + 2))"
      by blast
    from x(1) r(1) have rr: "r' = r" by simp
    have "\<exists>xs'. populateTree_step index start h =
                 Inr (index\<lparr>ni_a := xs'\<rparr>,
                      h\<lparr>blocks_left := blocks_left h - 1, nodes_made := Suc (nodes_made h)\<rparr>) \<and>
               length xs' = length (ni_a index) \<and>
               live (index\<lparr>ni_a := xs'\<rparr>) (start + 1) =
                 take (nat (r - start - 1)) (live index (start + 2)) @
                 Node (freq_of ?l + freq_of ?r) PNODE ?l ?r #
                 drop (nat (r - start - 1)) (live index (start + 2))"
      using x(2,3,4) unfolding rr by blast
    moreover from x(2) have "populateTree_step index start h \<noteq> Inl OutOfBounds"
      "populateTree_step index start h \<noteq> Inl NullDeref"
      "populateTree_step index start h \<noteq> Inl IntOverflow" by simp_all
    ultimately show ?thesis using False add r wr by (intro exI [of _ r]) simp
  qed
qed

theorem insertion_point_in_live_range_witness:
  "searchable \<lparr>ni_a = [Node 2 97 NULL NULL, Node 3 98 NULL NULL, Node 4 99 NULL NULL,
       Node 6 100 NULL NULL], ni_len = 4\<rparr> 0 \<and>
   (\<exists>r. getInsertionPoint 5 \<lparr>ni_a = [Node 2 97 NULL NULL, Node 3 98 NULL NULL, Node 4 99 NULL NULL,
       Node 6 100 NULL NULL], ni_len = 4\<rparr> 0 = Inr r \<and> 1 \<le> r \<and> r \<le> 3 \<and>
     (\<exists>xs'. populateTree_step \<lparr>ni_a = [Node 2 97 NULL NULL, Node 3 98 NULL NULL, Node 4 99 NULL NULL,
          Node 6 100 NULL NULL], ni_len = 4\<rparr> 0 \<lparr>nodes_made = 0, blocks_left = 1\<rparr> =
        Inr (\<lparr>ni_a = xs', ni_len = 4\<rparr>, \<lparr>nodes_made = 1, blocks_left = 0\<rparr>) \<and>
        length xs' = 4 \<and>
        drop 1 xs' = take (nat (r - 1)) [Node 4 99 NULL NULL, Node 6 100 NULL NULL] @
          Node 5 PNODE (Node 2 97 NULL NULL) (Node 3 98 NULL NULL) #
          drop (nat (r - 1)) [Node 4 99 NULL NULL, Node 6 100 NULL NULL])) \<and>
   populateTree_step \<lparr>ni_a = [Node 2 97 NULL NULL, Node 3 98 NULL NULL, Node 4 99 NULL NULL,
       Node 6 100 NULL NULL], ni_len = 4\<rparr> 0 \<lparr>nodes_made = 0, blocks_left = 0\<rparr> = Inl AllocFailed"
proof -
  let ?ix = "\<lparr>ni_a = [Node 2 97 NULL NULL, Node 3 98 NULL NULL, Node 4 99 NULL NULL,
       Node 6 100 NULL NULL], ni_len = 4\<rparr>"
  let ?h = "\<lparr>nodes_made = 0, blocks_left = 1\<rparr>"
  have h1: "searchable ?ix 0" by (simp add: searchable_def)
  have h2: "0 + 1 < ni_len ?ix" by simp
  have h3: "list_all (\<lambda>n. 0 < freq_of n) (live ?ix 0)" by (simp add: live_def)
  have h4: "freq_of (ni_a ?ix ! nat 0) + freq_of (ni_a ?ix ! nat (0 + 1)) \<le> INT_MAX"
    by (simp add: INT_MAX_def)
  have h5: "blocks_left ?h \<noteq> 0" by simp
  from insertion_point_in_live_range [OF h1 h2 h3 h4, of ?h] h5
  obtain r xs' where "getInsertionPoint 5 ?ix 0 = Inr r" "1 \<le> r" "r \<le> 3"
    "populateTree_step ?ix 0 ?h = Inr (\<lparr>ni_a = xs', ni_len = 4\<rparr>, \<lparr>nodes_made = 1, blocks_left = 0\<rparr>)"
    "length xs' = 4"
    "drop 1 xs' = take (nat (r - 1)) [Node 4 99 NULL NULL, Node 6 100 NULL NULL] @
          Node 5 PNODE (Node 2 97 NULL NULL) (Node 3 98 NULL NULL) #
          drop (nat (r - 1)) [Node 4 99 NULL NULL, Node 6 100 NULL NULL]"
    by (auto simp: live_def)
  moreover from insertion_point_in_live_range [OF h1 h2 h3 h4, of "\<lparr>nodes_made = 0, blocks_left = 0\<rparr>"]
  have "populateTree_step ?ix 0 \<lparr>nodes_made = 0, blocks_left = 0\<rparr> = Inl AllocFailed"
    by auto
  ultimately show ?thesis using h1 by blast
qed

text \<open>
  Without the bound on the sum the statement of claim C9 fails. Two nodes of frequency
  \<open>2 ^ 30\<close> are a sorted frontier of strictly positive frequencies, and their sum does not
  fit an \<^verbatim>\<open>int\<close>: the addition in \<^verbatim>\<open>populateTree\<close> overflows. Where it wraps around, the
  key is \<open>- (2 ^ 31)\<close>, smaller than every entry, \<^verbatim>\<open>getInsertionPoint\<close> returns
  \<open>start - 1 = - 1\<close>, the guard \<open>insertpoint > start + 1\<close> is false and the parent is
  written to position \<open>- 1\<close>, before the first cell of the array.
\<close>

theorem overflowing_pair_written_before_array:
  "searchable \<lparr>ni_a = [Node 1073741824 97 NULL NULL, Node 1073741824 98 NULL NULL], ni_len = 2\<rparr> 0 \<and>
   0 + 1 < ni_len \<lparr>ni_a = [Node 1073741824 97 NULL NULL, Node 1073741824 98 NULL NULL], ni_len = 2\<rparr> \<and>
   list_all (\<lambda>n. 0 < freq_of n)
     (live \<lparr>ni_a = [Node 1073741824 97 NULL NULL, Node 1073741824 98 NULL NULL], ni_len = 2\<rparr> 0) \<and>
   populateTree_step \<lparr>ni_a = [Node 1073741824 97 NULL NULL, Node 1073741824 98 NULL NULL], ni_len = 2\<rparr> 0
     \<lparr>nodes_made = 0, blocks_left = 1\<rparr> = Inl IntOverflow \<and>
   wrapping_add 1073741824 1073741824 = - 2147483648 \<and>
   getInsertionPoint (wrapping_add 1073741824 1073741824)
     \<lparr>ni_a = [Node 1073741824 97 NULL NULL, Node 1073741824 98 NULL NULL], ni_len = 2\<rparr> 0 = Inr (- 1) \<and>
   write_at [NULL, NULL] (- 1) (Node (- 2147483648) PNODE (Node 1073741824 97 NULL NULL)
     (Node 1073741824 98 NULL NULL)) = Inl OutOfBounds \<and>
   populateTree_step_wrapping
     \<lparr>ni_a = [Node 1073741824 97 NULL NULL, Node 1073741824 98 NULL NULL], ni_len = 2\<rparr> 0
     \<lparr>nodes_made = 0, blocks_left = 1\<rparr> = Inl OutOfBounds"
proof -
  let ?ix = "\<lparr>ni_a = [Node 1073741824 97 NULL NULL, Node 1073741824 98 NULL NULL], ni_len = 2\<rparr>"
  have w: "wrapping_add 1073741824 1073741824 = - 2147483648"
    by (simp add: wrapping_add_def INT_MIN_def)
  have g: "getInsertionPoint (- 2147483648) ?ix 0 = Inr (- 1)"
    by code_simp
  have c1: "searchable ?ix 0" by (simp add: searchable_def)
  have c3: "list_all (\<lambda>n. 0 < freq_of n) (live ?ix 0)" by (simp add: live_def)
  have s1: "populateTree_step ?ix 0 \<lparr>nodes_made = 0, blocks_left = 1\<rparr> = Inl IntOverflow"
    by (simp add: populateTree_step_def and_then_def read_at_def int_add_def INT_MAX_def INT_MIN_def)
  have s2: "populateTree_step_wrapping ?ix 0 \<lparr>nodes_made = 0, blocks_left = 1\<rparr> = Inl OutOfBounds"
    by (simp add: populateTree_step_wrapping_def and_then_def read_at_def w g createNode_def alloc_def
        write_at_def)
  have w2: "write_at [NULL, NULL] (- 1) (Node (- 2147483648) PNODE (Node 1073741824 97 NULL NULL)
     (Node 1073741824 98 NULL NULL)) = Inl OutOfBounds"
    by (simp add: write_at_def)
  show ?thesis
    using c1 c3 s1 s2 w2 g by (simp only: w) simp
qed

section \<open>The merge loop\<close>

lemma step_len:
  "populateTree_step index s h = Inr (index', h') \<Longrightarrow> ni_len index' = ni_len index"
  by (auto simp: populateTree_step_def Let_def and_then_def split: sum.splits)

lemma sum_list_nonneg_ge:
  "\<forall>x \<in> set xs. 0 \<le> (f x :: int) \<Longrightarrow> 0 \<le> sum_list (map f xs)"
  by (induction xs) auto

lemma step_live:
  assumes ok: "frontier_ok index s" and guard: "s + 1 < ni_len index" and heap: "blocks_left h \<noteq> 0"
  defines "l \<equiv> ni_a index ! nat s" and "r \<equiv> ni_a index ! nat (s + 1)"
  shows "\<exists>index' m. populateTree_step index s h =
            Inr (index', h\<lparr>blocks_left := blocks_left h - 1, nodes_made := Suc (nodes_made h)\<rparr>) \<and>
          ni_len index' = ni_len index \<and> length (ni_a index') = length (ni_a index) \<and>
          live index' (s + 1) = take m (live index (s + 2)) @
              Node (freq_of l + freq_of r) PNODE l r # drop m (live index (s + 2)) \<and>
          (\<forall>x \<in> set (take m (live index (s + 2))). freq_of x \<le> freq_of l + freq_of r) \<and>
          (\<forall>x \<in> set (drop m (live index (s + 2))). freq_of l + freq_of r \<le> freq_of x) \<and>
          ((\<forall>i<nat s. ni_a index ! i = NULL) \<longrightarrow> (\<forall>i<nat (s + 1). ni_a index' ! i = NULL))"
proof -
  from ok have srch: "searchable index s" and posall: "list_all (\<lambda>n. 0 < freq_of n) (live index s)"
    and total: "sum_list (map freq_of (live index s)) \<le> INT_MAX"
    by (auto simp: frontier_ok_def)
  from srch guard have s0: "0 \<le> s" and len: "s + 1 < int (length (ni_a index))"
    and len': "ni_len index = int (length (ni_a index))"
    by (auto simp: searchable_def)
  note lp = live_pair [OF s0 len, folded l_def r_def]
  from posall lp have pos: "0 < freq_of l" "0 < freq_of r"
    and posrest: "\<forall>x \<in> set (live index (s + 2)). 0 \<le> freq_of x"
    by (auto simp: list_all_iff)
  from total lp sum_list_nonneg_ge [OF posrest] have hi: "freq_of l + freq_of r \<le> INT_MAX"
    by simp
  from pos have lo: "INT_MIN \<le> freq_of l + freq_of r" by (simp add: INT_MIN_def)
  from step_ok [OF srch guard pos [unfolded l_def r_def] refl, of h, folded l_def r_def] lo hi heap
  obtain xs' ip where ip: "getInsertionPoint (freq_of l + freq_of r) index s = Inr ip" "s + 1 \<le> ip" "ip < ni_len index"
      and st: "populateTree_step index s h =
           Inr (index\<lparr>ni_a := xs'\<rparr>, h\<lparr>blocks_left := blocks_left h - 1, nodes_made := Suc (nodes_made h)\<rparr>)"
      and ln: "length xs' = length (ni_a index)"
      and lv: "live (index\<lparr>ni_a := xs'\<rparr>) (s + 1) =
         take (nat (ip - s - 1)) (live index (s + 2)) @
         Node (freq_of l + freq_of r) PNODE l r # drop (nat (ip - s - 1)) (live index (s + 2))"
      and pre: "(\<forall>i<nat s. ni_a index ! i = NULL) \<longrightarrow> (\<forall>i<nat (s + 1). xs' ! i = NULL)"
    by blast
  show ?thesis
  proof -
    from guard have sl: "s \<le> ni_len index" by simp
    note gf = gip_fits [OF srch sl ip(1)]
    have e: "nat (ip - (s + 2) + 1) = nat (ip - s - 1)" by simp
    from gf(1) have "\<forall>i. s + 2 \<le> i \<and> i \<le> ip \<longrightarrow> freq_of (ni_a index ! nat i) \<le> freq_of l + freq_of r"
      by simp
    then have b1: "\<forall>x \<in> set (take (nat (ip - s - 1)) (live index (s + 2))). freq_of x \<le> freq_of l + freq_of r"
      using range_take_drop(1) [of "s + 2" ip "ni_a index" "\<lambda>n. freq_of n \<le> freq_of l + freq_of r"]
        s0 ip len'
      by (simp add: live_def e)
    from gf(2) have b2: "\<forall>x \<in> set (drop (nat (ip - s - 1)) (live index (s + 2))). freq_of l + freq_of r \<le> freq_of x"
      using range_take_drop(2) [of "s + 2" ip "ni_a index" "\<lambda>n. freq_of l + freq_of r \<le> freq_of n"]
        s0 ip len'
      by (simp add: live_def e)
    from st ln lv b1 b2 pre show ?thesis
      by (intro exI [of _ "index\<lparr>ni_a := xs'\<rparr>"] exI [of _ "nat (ip - s - 1)"]) simp
  qed
qed


lemma insert_between:
  shows "mset (concat (map g (take m ys @ p # drop m ys))) = mset (g p) + mset (concat (map g ys))"
    and "sum_list (map f (take m ys @ p # drop m ys)) = (f p :: int) + sum_list (map f ys)"
    and "set (take m ys @ p # drop m ys) = insert p (set ys)"
proof -
  have "mset (concat (map g ys)) = mset (concat (map g (take m ys @ drop m ys)))" by simp
  also have "\<dots> = mset (concat (map g (take m ys))) + mset (concat (map g (drop m ys)))"
    by (simp only: map_append concat_append mset_append)
  finally show "mset (concat (map g (take m ys @ p # drop m ys))) = mset (g p) + mset (concat (map g ys))"
    by simp
  have "sum_list (map f ys) = sum_list (map f (take m ys @ drop m ys))" by simp
  also have "\<dots> = sum_list (map f (take m ys)) + sum_list (map f (drop m ys))"
    by (simp only: map_append sum_list_append)
  finally show "sum_list (map f (take m ys @ p # drop m ys)) = f p + sum_list (map f ys)"
    by simp
  have "set ys = set (take m ys @ drop m ys)" by simp
  also have "\<dots> = set (take m ys) \<union> set (drop m ys)" by (simp only: set_append)
  finally show "set (take m ys @ p # drop m ys) = insert p (set ys)" by auto
qed

lemma sorted_insert_between:
  assumes "sorted (map f ys)" "\<forall>x \<in> set (take m ys). f x \<le> f p" "\<forall>x \<in> set (drop m ys). f p \<le> f x"
  shows "sorted (map (f :: 'a \<Rightarrow> int) (take m ys @ p # drop m ys))"
proof -
  have "sorted (take m (map f ys))" "sorted (drop m (map f ys))"
    using assms(1) by (simp_all add: sorted_wrt_take sorted_wrt_drop)
  then have "sorted (map f (take m ys))" "sorted (map f (drop m ys))"
    by (simp_all add: take_map drop_map)
  with assms(2,3) show ?thesis
    by (fastforce simp: sorted_append)
qed

lemma step_frontier:
  assumes ok: "frontier_ok index s" and guard: "s + 1 < ni_len index" and heap: "blocks_left h \<noteq> 0"
  shows "\<exists>index'. populateTree_step index s h =
            Inr (index', h\<lparr>blocks_left := blocks_left h - 1, nodes_made := Suc (nodes_made h)\<rparr>) \<and>
          ni_len index' = ni_len index \<and> frontier_ok index' (s + 1) \<and>
          sum_list (map freq_of (live index' (s + 1))) = sum_list (map freq_of (live index s))"
proof -
  define l r where "l = ni_a index ! nat s" and "r = ni_a index ! nat (s + 1)"
  define key where "key = freq_of l + freq_of r"
  define rest where "rest = live index (s + 2)"
  define p where "p = Node key PNODE l r"
  from ok have srch: "searchable index s" and posall: "list_all (\<lambda>n. 0 < freq_of n) (live index s)"
    and total: "sum_list (map freq_of (live index s)) \<le> INT_MAX"
    by (auto simp: frontier_ok_def)
  from srch guard have s0: "0 \<le> s" and len: "s + 1 < int (length (ni_a index))"
    and len': "ni_len index = int (length (ni_a index))"
    by (auto simp: searchable_def)
  have lp: "live index s = l # r # rest"
    using live_pair [OF s0 len] by (simp add: l_def r_def rest_def)
  from step_live [OF ok guard heap, folded l_def r_def, folded key_def, folded p_def rest_def]
  obtain index' m where st: "populateTree_step index s h =
            Inr (index', h\<lparr>blocks_left := blocks_left h - 1, nodes_made := Suc (nodes_made h)\<rparr>)"
    and ln: "ni_len index' = ni_len index" "length (ni_a index') = length (ni_a index)"
    and lv: "live index' (s + 1) = take m rest @ p # drop m rest"
    and b1: "\<forall>x \<in> set (take m rest). freq_of x \<le> key"
    and b2: "\<forall>x \<in> set (drop m rest). key \<le> freq_of x"
    by blast
  have fp: "freq_of p = key" by (simp add: p_def)
  have set': "set (live index' (s + 1)) = insert p (set rest)"
    unfolding lv by (rule insert_between(3))
  have "sum_list (map freq_of (live index' (s + 1))) = freq_of p + sum_list (map freq_of rest)"
    unfolding lv by (rule insert_between(2))
  then have sum': "sum_list (map freq_of (live index' (s + 1))) = sum_list (map freq_of (live index s))"
    by (simp add: lp fp key_def)
  have pos: "0 < freq_of l" "0 < freq_of r" using posall lp by simp_all
  have "sorted (map freq_of rest)" using srch lp by (simp add: searchable_def live_def)
  with b1 b2 have sorted': "sorted (map freq_of (live index' (s + 1)))"
    unfolding lv by (intro sorted_insert_between) (simp_all add: fp)
  have srch': "searchable index' (s + 1)"
    using s0 ln len' sorted' set' srch lp 
    by (auto simp: searchable_def live_def p_def)
  have ok': "frontier_ok index' (s + 1)"
    using srch' guard ln sum' total posall lp set' pos
    by (auto simp: frontier_ok_def list_all_iff p_def key_def)
  from st ln ok' sum' show ?thesis by blast
qed

lemma step_forest:
  assumes f: "forest index s L" and guard: "s + 1 < ni_len index" and heap: "blocks_left h \<noteq> 0"
  shows "\<exists>index'. populateTree_step index s h =
            Inr (index', h\<lparr>blocks_left := blocks_left h - 1, nodes_made := Suc (nodes_made h)\<rparr>) \<and>
          ni_len index' = ni_len index \<and> forest index' (s + 1) L \<and>
          sum_list (map freq_of (live index' (s + 1))) = sum_list (map freq_of (live index s))"
proof -
  define l r where "l = ni_a index ! nat s" and "r = ni_a index ! nat (s + 1)"
  define rest where "rest = live index (s + 2)"
  define p where "p = Node (freq_of l + freq_of r) PNODE l r"
  from f have ok: "frontier_ok index s" and bl: "list_all built (live index s)"
    and lvs: "mset (concat (map leaves (live index s))) = L"
    and pre: "list_all (\<lambda>n. n = NULL) (take (nat s) (ni_a index))"
    by (auto simp: forest_def)
  from ok guard have s0: "0 \<le> s" and len: "s + 1 < int (length (ni_a index))"
    and posall: "list_all (\<lambda>n. 0 < freq_of n) (live index s)"
    by (auto simp: frontier_ok_def searchable_def)
  have lp: "live index s = l # r # rest"
    using live_pair [OF s0 len] by (simp add: l_def r_def rest_def)
  from step_live [OF ok guard heap, folded l_def r_def, folded p_def rest_def]
  obtain index' m where st: "populateTree_step index s h =
            Inr (index', h\<lparr>blocks_left := blocks_left h - 1, nodes_made := Suc (nodes_made h)\<rparr>)"
    and lv: "live index' (s + 1) = take m rest @ p # drop m rest"
    and pre': "(\<forall>i<nat s. ni_a index ! i = NULL) \<longrightarrow> (\<forall>i<nat (s + 1). ni_a index' ! i = NULL)"
    by blast
  from step_frontier [OF ok guard heap] st
  have ln: "ni_len index' = ni_len index" and ok': "frontier_ok index' (s + 1)"
    and sum': "sum_list (map freq_of (live index' (s + 1))) = sum_list (map freq_of (live index s))"
    by auto
  have set': "set (live index' (s + 1)) = insert p (set rest)"
    unfolding lv by (rule insert_between(3))
  have nn: "l \<noteq> NULL" "r \<noteq> NULL" using posall lp by auto
  have built': "list_all built (live index' (s + 1))"
    using bl lp set' nn by (auto simp: list_all_iff p_def)
  have "mset (concat (map leaves (live index' (s + 1)))) = mset (leaves p) + mset (concat (map leaves rest))"
    unfolding lv by (rule insert_between(1))
  then have lvs': "mset (concat (map leaves (live index' (s + 1)))) = L"
    using lvs lp nn by (simp add: p_def ac_simps)
  have "\<forall>i<nat s. ni_a index ! i = NULL"
    using pre len s0 by (auto simp: list_all_length)
  with pre' have "\<forall>i<nat (s + 1). ni_a index' ! i = NULL" by simp
  then have pre2: "list_all (\<lambda>n. n = NULL) (take (nat (s + 1)) (ni_a index'))"
    by (auto simp: list_all_length)
  from st ln ok' built' lvs' pre2 sum' show ?thesis
    by (auto simp: forest_def)
qed

lemma merge_steps_Suc_Inr:
  "merge_steps (Suc k) index h = Inr (i', h') \<longleftrightarrow>
     (\<exists>ik hk. merge_steps k index h = Inr (ik, hk) \<and> populateTree_step ik (int k) hk = Inr (i', h'))"
  by (auto simp: and_then_def split: sum.splits)

lemma merge_steps_len:
  "merge_steps k index h = Inr (ik, hk) \<Longrightarrow> ni_len ik = ni_len index"
proof (induction k arbitrary: ik hk)
  case 0
  then show ?case by simp
next
  case (Suc k)
  then show ?case
    unfolding merge_steps_Suc_Inr using step_len by fastforce
qed

lemma loop_unfold:
  assumes "merge_steps k index h = Inr (ik, hk)" "int k < ni_len index"
  shows "populateTree_loop index 0 h = populateTree_loop ik (int k) hk"
  using assms
proof (induction k arbitrary: ik hk)
  case 0
  then show ?case by simp
next
  case (Suc k)
  from Suc.prems(1) obtain i1 h1 where
    m: "merge_steps k index h = Inr (i1, h1)" and st: "populateTree_step i1 (int k) h1 = Inr (ik, hk)"
    unfolding merge_steps_Suc_Inr by blast
  from Suc.prems(2) have k: "int k < ni_len index" by simp
  from merge_steps_len [OF m] Suc.prems(2) have g: "int k < ni_len i1 - 1" by simp
  have "populateTree_loop index 0 h = populateTree_loop i1 (int k) h1"
    by (rule Suc.IH [OF m k])
  also have "\<dots> = populateTree_loop ik (int k + 1) hk"
    using g st by (subst populateTree_loop.simps) simp
  finally show ?case by (simp add: add.commute)
qed

lemma loop_done: "ni_len ik - 1 \<le> s \<Longrightarrow> populateTree_loop ik s hk = Inr (ik, hk)"
  by (subst populateTree_loop.simps) simp

lemma merge_steps_forest:
  assumes "forest index 0 L" "int k < ni_len index" "k \<le> blocks_left h"
  shows "\<exists>ik. merge_steps k index h =
            Inr (ik, h\<lparr>blocks_left := blocks_left h - k, nodes_made := nodes_made h + k\<rparr>) \<and>
          ni_len ik = ni_len index \<and> forest ik (int k) L \<and>
          sum_list (map freq_of (live ik (int k))) = sum_list (map freq_of (live index 0))"
  using assms(2,3)
proof (induction k)
  case 0
  with assms(1) show ?case by simp
next
  case (Suc k)
  then obtain ik where ik: "merge_steps k index h =
       Inr (ik, h\<lparr>blocks_left := blocks_left h - k, nodes_made := nodes_made h + k\<rparr>)"
    "ni_len ik = ni_len index" "forest ik (int k) L"
    "sum_list (map freq_of (live ik (int k))) = sum_list (map freq_of (live index 0))"
    by auto
  let ?hk = "h\<lparr>blocks_left := blocks_left h - k, nodes_made := nodes_made h + k\<rparr>"
  from Suc.prems ik(2) have g: "int k + 1 < ni_len ik" and hp: "blocks_left ?hk \<noteq> 0" by auto
  from step_forest [OF ik(3) g hp] obtain i' where
    i': "populateTree_step ik (int k) ?hk =
            Inr (i', ?hk\<lparr>blocks_left := blocks_left ?hk - 1, nodes_made := Suc (nodes_made ?hk)\<rparr>)"
      "ni_len i' = ni_len ik" "forest i' (int k + 1) L"
      "sum_list (map freq_of (live i' (int k + 1))) = sum_list (map freq_of (live ik (int k)))"
    by blast
  have "merge_steps (Suc k) index h =
      Inr (i', h\<lparr>blocks_left := blocks_left h - Suc k, nodes_made := nodes_made h + Suc k\<rparr>)"
    using ik(1) i'(1) by (simp add: and_then_def)
  with i' ik show ?case by (auto simp: add.commute)
qed

lemma live_last:
  assumes "ni_len index = int (length (ni_a index))" "0 < ni_len index"
  shows "live index (ni_len index - 1) = [ni_a index ! nat (ni_len index - 1)]"
proof -
  from assms have "ni_a index \<noteq> []" by auto
  then have "drop (length (ni_a index) - 1) (ni_a index) = [ni_a index ! (length (ni_a index) - 1)]"
    using Cons_nth_drop_Suc [of "length (ni_a index) - 1" "ni_a index"] by simp
  moreover have "nat (ni_len index - 1) = length (ni_a index) - 1" using assms by simp
  ultimately show ?thesis by (simp add: live_def)
qed

lemma populateTree_forest:
  assumes f: "forest index 0 L" and heap: "nat (ni_len index - 1) \<le> blocks_left h"
  defines "n \<equiv> nat (ni_len index - 1)"
  shows "\<exists>root index'. populateTree index h =
            Inr (root, index', h\<lparr>blocks_left := blocks_left h - n, nodes_made := nodes_made h + n\<rparr>) \<and>
          populateTree_loop index 0 h = merge_steps n index h \<and>
          merge_steps n index h =
            Inr (index', h\<lparr>blocks_left := blocks_left h - n, nodes_made := nodes_made h + n\<rparr>) \<and>
          ni_len index' = ni_len index \<and> forest index' (ni_len index - 1) L \<and>
          live index' (ni_len index - 1) = [root] \<and>
          freq_of root = sum_list (map freq_of (live index 0))"
proof -
  from f have len0: "0 < ni_len index" by (auto simp: forest_def frontier_ok_def)
  then have kn: "int n < ni_len index" "int n = ni_len index - 1" by (auto simp: n_def)
  from merge_steps_forest [OF f kn(1) heap [folded n_def]] obtain ik where
    ik: "merge_steps n index h =
            Inr (ik, h\<lparr>blocks_left := blocks_left h - n, nodes_made := nodes_made h + n\<rparr>)"
      "ni_len ik = ni_len index" "forest ik (int n) L"
      "sum_list (map freq_of (live ik (int n))) = sum_list (map freq_of (live index 0))"
    by blast
  let ?h' = "h\<lparr>blocks_left := blocks_left h - n, nodes_made := nodes_made h + n\<rparr>"
  have loop: "populateTree_loop index 0 h = Inr (ik, ?h')"
    using loop_unfold [OF ik(1) kn(1)] loop_done [of ik "int n" ?h'] ik(2) kn(2) by simp
  from ik(3) have lenk: "ni_len ik = int (length (ni_a ik))"
    by (auto simp: forest_def frontier_ok_def searchable_def)
  define root where "root = ni_a ik ! nat (ni_len ik - 1)"
  have rd: "read_at (ni_a ik) (ni_len ik - 1) = Inr root"
    using lenk len0 ik(2) by (simp add: read_at_def root_def)
  have pt: "populateTree index h = Inr (root, ik, ?h')"
    by (simp add: populateTree_def loop rd)
  have lv: "live ik (ni_len index - 1) = [root]"
    using live_last [OF lenk] len0 ik(2) by (simp add: root_def)
  with ik(4) kn(2) have "freq_of root = sum_list (map freq_of (live index 0))" by simp
  with pt loop ik lv kn(2) show ?thesis by auto
qed


lemma merge_steps_frontier:
  assumes "frontier_ok index 0" "int k < ni_len index" "k \<le> blocks_left h"
  shows "\<exists>ik. merge_steps k index h =
            Inr (ik, h\<lparr>blocks_left := blocks_left h - k, nodes_made := nodes_made h + k\<rparr>) \<and>
          ni_len ik = ni_len index \<and> frontier_ok ik (int k) \<and>
          sum_list (map freq_of (live ik (int k))) = sum_list (map freq_of (live index 0))"
  using assms(2,3)
proof (induction k)
  case 0
  with assms(1) show ?case by simp
next
  case (Suc k)
  then obtain ik where ik: "merge_steps k index h =
       Inr (ik, h\<lparr>blocks_left := blocks_left h - k, nodes_made := nodes_made h + k\<rparr>)"
    "ni_len ik = ni_len index" "frontier_ok ik (int k)"
    "sum_list (map freq_of (live ik (int k))) = sum_list (map freq_of (live index 0))"
    by auto
  let ?hk = "h\<lparr>blocks_left := blocks_left h - k, nodes_made := nodes_made h + k\<rparr>"
  from Suc.prems ik(2) have g: "int k + 1 < ni_len ik" and hp: "blocks_left ?hk \<noteq> 0" by auto
  from step_frontier [OF ik(3) g hp] obtain i' where
    i': "populateTree_step ik (int k) ?hk =
            Inr (i', ?hk\<lparr>blocks_left := blocks_left ?hk - 1, nodes_made := Suc (nodes_made ?hk)\<rparr>)"
      "ni_len i' = ni_len ik" "frontier_ok i' (int k + 1)"
      "sum_list (map freq_of (live i' (int k + 1))) = sum_list (map freq_of (live ik (int k)))"
    by blast
  have "merge_steps (Suc k) index h =
      Inr (i', h\<lparr>blocks_left := blocks_left h - Suc k, nodes_made := nodes_made h + Suc k\<rparr>)"
    using ik(1) i'(1) by (simp add: and_then_def)
  with i' ik show ?case by (auto simp: add.commute)
qed



section \<open>From the table to the tree\<close>

lemma nz_step:
  "i < ASIZE \<Longrightarrow> nz a i = (if a ! nat i \<noteq> 0 then i # nz a (i + 1) else nz a (i + 1))"
  by (simp add: nz_def upto_rec1 [of i])

lemma nz_end: "\<not> i < ASIZE \<Longrightarrow> nz a i = []"
  by (simp add: nz_def)

lemma symbols_nz: "symbols a = nz a 0"
  by (simp add: symbols_def nz_def)

lemma calcNodeCnt_loop_eq:
  assumes "int (length a) = ASIZE" "0 \<le> i"
  shows "calcNodeCnt_loop a i cnt = Inr (cnt + int (length (nz a i)))"
  using assms
proof (induction a i cnt rule: calcNodeCnt_loop.induct)
  case (1 a i cnt)
  show ?case
  proof (cases "i < ASIZE")
    case False
    then show ?thesis by (subst calcNodeCnt_loop.simps) (simp add: nz_end)
  next
    case True
    with 1(3,4) have rd: "read_at a i = Inr (a ! nat i)" by (simp add: read_at_def)
    show ?thesis
    proof (cases "a ! nat i \<noteq> 0")
      case nzc: True
      from "1.IH"(1) [OF True rd nzc 1(3)] 1(4)
      have "calcNodeCnt_loop a (i + 1) (cnt + 1) = Inr (cnt + 1 + int (length (nz a (i + 1))))" by simp
      then show ?thesis using True rd nzc
        by (subst calcNodeCnt_loop.simps) (simp add: nz_step)
    next
      case z: False
      from "1.IH"(2) [OF True rd z 1(3)] 1(4)
      have "calcNodeCnt_loop a (i + 1) cnt = Inr (cnt + int (length (nz a (i + 1))))" by simp
      then show ?thesis using True rd z
        by (subst calcNodeCnt_loop.simps) (simp add: nz_step)
    qed
  qed
qed

lemma calcNodeCnt_eq:
  assumes "int (length a) = ASIZE"
  shows "calcNodeCnt a = (if symbolCount a < 2 then Inl TooFewNodes else Inr (symbolCount a))"
  using calcNodeCnt_loop_eq [OF assms, of 0 0]
  by (simp add: calcNodeCnt_def symbolCount_def symbols_nz)

lemma createNodeIndex_loop_eq:
  assumes "int (length a) = ASIZE" "0 \<le> i" "0 \<le> j"
    and "nat j + length (nz a i) \<le> length na" "length (nz a i) \<le> blocks_left h"
  shows "createNodeIndex_loop a na i j h =
           Inr (take (nat j) na @ map (leaf_of a) (nz a i) @ drop (nat j + length (nz a i)) na,
                h\<lparr>blocks_left := blocks_left h - length (nz a i),
                   nodes_made := nodes_made h + length (nz a i)\<rparr>)"
  using assms
proof (induction a na i j h rule: createNodeIndex_loop.induct)
  case (1 a na i j h)
  show ?case
  proof (cases "i < ASIZE")
    case False
    then show ?thesis by (subst createNodeIndex_loop.simps) (simp add: nz_end)
  next
    case True
    with "1.prems" have rd: "read_at a i = Inr (a ! nat i)" by (simp add: read_at_def)
    show ?thesis
    proof (cases "a ! nat i \<noteq> 0")
      case z: False
      from z True have e: "nz a i = nz a (i + 1)" by (simp add: nz_step)
      from "1.IH"(2) [OF True rd z] "1.prems" e
      have "createNodeIndex_loop a na (i + 1) j h =
           Inr (take (nat j) na @ map (leaf_of a) (nz a i) @ drop (nat j + length (nz a i)) na,
                h\<lparr>blocks_left := blocks_left h - length (nz a i),
                   nodes_made := nodes_made h + length (nz a i)\<rparr>)" by simp
      then show ?thesis using True rd z
        by (subst createNodeIndex_loop.simps) simp
    next
      case nzc: True
      from nzc True have e: "nz a i = i # nz a (i + 1)" by (simp add: nz_step)
      let ?n = "length (nz a (i + 1))"
      let ?h' = "h\<lparr>blocks_left := blocks_left h - 1, nodes_made := Suc (nodes_made h)\<rparr>"
      from "1.prems" e have bl: "blocks_left h \<noteq> 0" by simp
      have cn: "createNode i (a ! nat i) NULL NULL h = Inr (leaf_of a i, ?h')"
        using createNode_ok [OF bl] by (simp add: leaf_of_def)
      from "1.prems" e have jl: "nat j < length na" by simp
      with "1.prems" have wr: "write_at na j (leaf_of a i) = Inr (na[nat j := leaf_of a i])"
        by (simp add: write_at_def)
      have "createNodeIndex_loop a (na[nat j := leaf_of a i]) (i + 1) (j + 1) ?h' =
           Inr (take (nat (j + 1)) (na[nat j := leaf_of a i]) @ map (leaf_of a) (nz a (i + 1)) @
                  drop (nat (j + 1) + ?n) (na[nat j := leaf_of a i]),
                ?h'\<lparr>blocks_left := blocks_left ?h' - ?n, nodes_made := nodes_made ?h' + ?n\<rparr>)"
        using "1.prems" e by (intro "1.IH"(1) [OF True rd nzc cn refl wr]) auto
      moreover have "take (nat (j + 1)) (na[nat j := leaf_of a i]) = take (nat j) na @ [leaf_of a i]"
        using jl "1.prems"(3) by (simp add: nat_add_distrib take_Suc_conv_app_nth)
      moreover have "drop (nat (j + 1) + ?n) (na[nat j := leaf_of a i]) = drop (nat j + length (nz a i)) na"
        using "1.prems"(3) e by (simp add: nat_add_distrib)
      ultimately have "createNodeIndex_loop a (na[nat j := leaf_of a i]) (i + 1) (j + 1) ?h' =
           Inr (take (nat j) na @ map (leaf_of a) (nz a i) @ drop (nat j + length (nz a i)) na,
                h\<lparr>blocks_left := blocks_left h - length (nz a i),
                   nodes_made := nodes_made h + length (nz a i)\<rparr>)"
        using e by simp
      then show ?thesis using True rd nzc cn wr
        by (subst createNodeIndex_loop.simps) simp
    qed
  qed
qed

lemma createNodeIndex_eq:
  assumes "int (length a) = ASIZE" "nat (symbolCount a) < blocks_left h"
  shows "createNodeIndex a (symbolCount a) h =
           Inr (map (leaf_of a) (symbols a),
                h\<lparr>blocks_left := blocks_left h - 1 - nat (symbolCount a),
                   nodes_made := nodes_made h + nat (symbolCount a)\<rparr>)"
proof -
  let ?h' = "h\<lparr>blocks_left := blocks_left h - 1\<rparr>"
  have al: "alloc h = Inr ?h'" using assms(2) by (simp add: alloc_def)
  have n: "nat (symbolCount a) = length (nz a 0)" by (simp add: symbolCount_def symbols_nz)
  from createNodeIndex_loop_eq [OF assms(1), of 0 0 "replicate (nat (symbolCount a)) NULL" ?h']
    assms(2) n
  show ?thesis
    by (simp add: createNodeIndex_def al symbols_nz symbolCount_def)
qed


lemma upto_nth_map: "map (\<lambda>i. a ! nat i) [0..int (length a) - 1] = a"
  by (rule nth_equalityI) simp_all

lemma sum_symbols:
  assumes "int (length a) = ASIZE"
  shows "sum_list (map (\<lambda>i. a ! nat i) (symbols a)) = sum_list a"
proof -
  have "sum_list (map (\<lambda>i. a ! nat i) (symbols a)) = sum_list (map (\<lambda>i. a ! nat i) [0..ASIZE - 1])"
    unfolding symbols_def by (rule sum_list_map_filter) simp
  also have "\<dots> = sum_list a" using upto_nth_map [of a] assms by simp
  finally show ?thesis .
qed

lemma symbols_range: "i \<in> set (symbols a) \<Longrightarrow> 0 \<le> i \<and> i < ASIZE \<and> a ! nat i \<noteq> 0"
  by (auto simp: symbols_def)

lemma symbols_distinct: "distinct (symbols a)"
  by (simp add: symbols_def)

lemma in_order_leaf:
  assumes "0 < f1" "f1 \<le> INT_MAX" "0 < f2" "f2 \<le> INT_MAX"
  shows "in_order (Node f1 s1 l1 r1) (Node f2 s2 l2 r2) \<longleftrightarrow> f1 \<le> f2"
  using assms by (auto simp: in_order_def nodeComp_def INT_MIN_def INT_MAX_def)

lemma mset_concat_map_cong:
  assumes "mset xs = mset ys"
  shows "mset (concat (map g xs)) = mset (concat (map g ys))"
proof -
  have "\<And>zs. mset (concat (map g zs)) = (\<Sum>x\<in>#mset zs. mset (g x))"
    by (simp add: mset_concat sum_mset_sum_list [symmetric] comp_def)
  with assms show ?thesis by simp
qed

lemma sum_list_map_mset_cong:
  assumes "mset xs = mset ys"
  shows "sum_list (map f xs) = (sum_list (map f ys) :: int)"
proof -
  have "\<And>zs. sum_list (map f zs) = sum_mset (image_mset f (mset zs))"
    by (simp add: sum_mset_sum_list [symmetric])
  with assms show ?thesis by simp
qed

lemma table_pos:
  assumes "valid_table a" "i \<in> set (symbols a)"
  shows "0 < a ! nat i" "a ! nat i \<le> INT_MAX"
proof -
  from assms have r: "0 \<le> i" "i < ASIZE" "a ! nat i \<noteq> 0" and len: "int (length a) = ASIZE"
    and nonneg: "\<forall>v \<in> set a. 0 \<le> v" and tot: "sum_list a \<le> INT_MAX"
    by (auto simp: valid_table_def list_all_iff dest: symbols_range)
  from r len have mem: "a ! nat i \<in> set a" by (intro nth_mem) simp
  with nonneg r show "0 < a ! nat i" by force
  from nonneg mem have "a ! nat i \<le> sum_list a" by (intro member_le_sum_list) auto
  with tot show "a ! nat i \<le> INT_MAX" by simp
qed

lemma leaves_leaf_nodes:
  "concat (map leaves (map (leaf_of a) xs)) = map (\<lambda>i. (i, a ! nat i)) xs"
  by (induction xs) (simp_all add: leaf_of_def)

lemma init_forest:
  assumes vt: "valid_table a" and two: "2 \<le> symbolCount a" and qs: "qsort_spec qs"
    and heap: "nat (symbolCount a) < blocks_left h"
  shows "\<exists>index0. initIndex qs a h =
            Inr (index0, h\<lparr>blocks_left := blocks_left h - 1 - nat (symbolCount a),
                           nodes_made := nodes_made h + nat (symbolCount a)\<rparr>) \<and>
          ni_len index0 = symbolCount a \<and> forest index0 0 (table_leaves a) \<and>
          mset (ni_a index0) = mset (map (leaf_of a) (symbols a)) \<and>
          sum_list (map freq_of (live index0 0)) = sum_list a"
proof -
  let ?na = "map (leaf_of a) (symbols a)"
  let ?h' = "h\<lparr>blocks_left := blocks_left h - 1 - nat (symbolCount a),
                nodes_made := nodes_made h + nat (symbolCount a)\<rparr>"
  let ?ix = "\<lparr>ni_a = qs ?na, ni_len = symbolCount a\<rparr>"
  from vt have len: "int (length a) = ASIZE" by (simp add: valid_table_def)
  have cnt: "calcNodeCnt a = Inr (symbolCount a)" using calcNodeCnt_eq [OF len] two by simp
  have cni: "createNodeIndex a (symbolCount a) h = Inr (?na, ?h')"
    by (rule createNodeIndex_eq [OF len heap])
  have init: "initIndex qs a h = Inr (?ix, ?h')"
    by (simp add: initIndex_def and_then_def cnt cni)
  have "list_all comparable ?na"
    using table_pos [OF vt] by (auto simp: list_all_iff comparable_def leaf_of_def intro: less_imp_le)
  with qs have perm: "mset (qs ?na) = mset ?na" and ord: "sorted_wrt in_order (qs ?na)"
    by (auto simp: qsort_spec_def)
  from perm have seteq: "set (qs ?na) = set ?na" by (rule mset_eq_setD)
  from perm have leneq: "length (qs ?na) = length ?na" by (rule mset_eq_length)
  have leafs: "\<forall>n \<in> set (qs ?na). \<exists>i \<in> set (symbols a). n = leaf_of a i"
    unfolding seteq by auto
  have pos: "\<forall>n \<in> set (qs ?na). 0 < freq_of n \<and> freq_of n \<le> INT_MAX \<and> n \<noteq> NULL \<and> built n"
  proof
    fix n assume "n \<in> set (qs ?na)"
    with leafs obtain i where i: "i \<in> set (symbols a)" "n = leaf_of a i" by blast
    from symbols_range [OF i(1)] have "i \<noteq> PNODE" by (auto simp: PNODE_def)
    with table_pos [OF vt i(1)] i(2)
    show "0 < freq_of n \<and> freq_of n \<le> INT_MAX \<and> n \<noteq> NULL \<and> built n"
      by (simp add: leaf_of_def)
  qed
  have "sorted_wrt (\<lambda>x y. freq_of x \<le> freq_of y) (qs ?na)"
  proof (rule sorted_wrt_mono_rel [OF _ ord])
    fix x y assume xy: "x \<in> set (qs ?na)" "y \<in> set (qs ?na)" "in_order x y"
    with pos have px: "0 < freq_of x" "freq_of x \<le> INT_MAX" "x \<noteq> NULL"
      and py: "0 < freq_of y" "freq_of y \<le> INT_MAX" "y \<noteq> NULL" by auto
    from px(3) py(3) obtain f1 s1 l1 r1 f2 s2 l2 r2 where
      "x = Node f1 s1 l1 r1" "y = Node f2 s2 l2 r2" by (cases x; cases y) auto
    with px py xy(3) in_order_leaf [of f1 f2 s1 l1 r1 s2 l2 r2]
    show "freq_of x \<le> freq_of y" by simp
  qed
  then have srt: "sorted (map freq_of (qs ?na))"
    by (simp add: sorted_map)
  have sum: "sum_list (map freq_of (qs ?na)) = sum_list a"
  proof -
    have "sum_list (map freq_of (qs ?na)) = sum_list (map freq_of ?na)"
      by (rule sum_list_map_mset_cong [OF perm])
    also have "\<dots> = sum_list (map (\<lambda>i. a ! nat i) (symbols a))"
      by (simp add: comp_def leaf_of_def)
    finally show ?thesis using sum_symbols [OF len] by simp
  qed
  have lv: "mset (concat (map leaves (qs ?na))) = table_leaves a"
  proof -
    have "mset (concat (map leaves (qs ?na))) = mset (concat (map leaves ?na))"
      by (rule mset_concat_map_cong [OF perm])
    also have "concat (map leaves ?na) = map (\<lambda>i. (i, a ! nat i)) (symbols a)"
      by (rule leaves_leaf_nodes)
    finally show ?thesis by (simp add: table_leaves_def)
  qed
  have n: "symbolCount a = int (length (qs ?na))"
    using leneq by (simp add: symbolCount_def)
  have srch: "searchable ?ix 0"
    using n srt pos by (auto simp: searchable_def)
  have ok: "frontier_ok ?ix 0"
    using srch two pos sum vt by (auto simp: frontier_ok_def live_def list_all_iff valid_table_def)
  have "forest ?ix 0 (table_leaves a)"
    using ok pos lv by (auto simp: forest_def live_def list_all_iff)
  with init perm sum show ?thesis
    by (intro exI [of _ ?ix]) (simp add: live_def)
qed


lemma qsort_spec_sort_by_freq: "qsort_spec sort_by_freq"
  unfolding qsort_spec_def
proof (intro allI impI conjI)
  fix xs assume c: "list_all comparable xs"
  show "mset (sort_by_freq xs) = mset xs" by (simp add: sort_by_freq_def)
  have "sorted_wrt (\<lambda>x y. freq_of x \<le> freq_of y) (sort_by_freq xs)"
    using sorted_sort_key [of freq_of xs] by (simp add: sort_by_freq_def sorted_map)
  then show "sorted_wrt in_order (sort_by_freq xs)"
  proof (rule sorted_wrt_mono_rel [rotated])
    fix x y assume xy: "x \<in> set (sort_by_freq xs)" "y \<in> set (sort_by_freq xs)" "freq_of x \<le> freq_of y"
    with c have "comparable x" "comparable y" by (auto simp: sort_by_freq_def list_all_iff)
    with xy(3) show "in_order x y"
      by (cases x; cases y) (auto simp: comparable_def in_order_def nodeComp_def INT_MIN_def INT_MAX_def)
  qed
qed

lemma forest_root:
  assumes "forest index' s L" "live index' s = [root]"
  shows "built root" "mset (leaves root) = L" "root \<noteq> NULL"
    "filter (\<lambda>n. n \<noteq> NULL) (ni_a index') = [root]"
proof -
  from assms show b: "built root" and "mset (leaves root) = L"
    by (auto simp: forest_def)
  from b show nn: "root \<noteq> NULL" by auto
  from assms(1) have pre: "\<forall>n \<in> set (take (nat s) (ni_a index')). n = NULL"
    by (auto simp: forest_def list_all_iff)
  have "ni_a index' = take (nat s) (ni_a index') @ drop (nat s) (ni_a index')" by simp
  then have "filter (\<lambda>n. n \<noteq> NULL) (ni_a index') =
      filter (\<lambda>n. n \<noteq> NULL) (take (nat s) (ni_a index')) @ filter (\<lambda>n. n \<noteq> NULL) (live index' s)"
    unfolding live_def by (metis filter_append)
  also have "filter (\<lambda>n. n \<noteq> NULL) (take (nat s) (ni_a index')) = []"
    using pre by (simp add: filter_empty_conv)
  finally show "filter (\<lambda>n. n \<noteq> NULL) (ni_a index') = [root]"
    using assms(2) nn by simp
qed

lemma build_forest:
  assumes vt: "valid_table a" and two: "2 \<le> symbolCount a" and qs: "qsort_spec qs"
    and heap: "2 * symbolCount a \<le> int (blocks_left h)"
  defines "n \<equiv> nat (symbolCount a)"
  defines "h0 \<equiv> h\<lparr>blocks_left := blocks_left h - 1 - n, nodes_made := nodes_made h + n\<rparr>"
  defines "h1 \<equiv> h0\<lparr>blocks_left := blocks_left h0 - (n - 1), nodes_made := nodes_made h0 + (n - 1)\<rparr>"
  shows "\<exists>index0 root index'.
          initIndex qs a h = Inr (index0, h0) \<and> ni_len index0 = symbolCount a \<and>
          forest index0 0 (table_leaves a) \<and>
          sum_list (map freq_of (live index0 0)) = sum_list a \<and>
          int (n - 1) \<le> int (blocks_left h0) \<and>
          populateTree index0 h0 = Inr (root, index', h1) \<and>
          buildTree qs a h = Inr (root, index', h1) \<and>
          populateTree_loop index0 0 h0 = merge_steps (n - 1) index0 h0 \<and>
          merge_steps (n - 1) index0 h0 = Inr (index', h1) \<and>
          forest index' (symbolCount a - 1) (table_leaves a) \<and>
          live index' (symbolCount a - 1) = [root] \<and>
          freq_of root = sum_list a"
proof -
  from two heap have hp: "nat (symbolCount a) < blocks_left h" by simp
  from init_forest [OF vt two qs hp, folded n_def, folded h0_def] obtain index0 where
    i0: "initIndex qs a h = Inr (index0, h0)" "ni_len index0 = symbolCount a"
      "forest index0 0 (table_leaves a)" "sum_list (map freq_of (live index0 0)) = sum_list a"
    by blast
  have e: "nat (ni_len index0 - 1) = n - 1" using i0(2) by (simp add: n_def)
  have hp0: "nat (ni_len index0 - 1) \<le> blocks_left h0"
    using heap two by (simp add: e h0_def n_def)
  from populateTree_forest [OF i0(3) hp0, unfolded e, folded h1_def] obtain root index' where
    pt: "populateTree index0 h0 = Inr (root, index', h1)"
      "populateTree_loop index0 0 h0 = merge_steps (n - 1) index0 h0"
      "merge_steps (n - 1) index0 h0 = Inr (index', h1)"
      "forest index' (ni_len index0 - 1) (table_leaves a)"
      "live index' (ni_len index0 - 1) = [root]"
      "freq_of root = sum_list (map freq_of (live index0 0))"
    by blast
  have bt: "buildTree qs a h = Inr (root, index', h1)"
    by (simp add: buildTree_def and_then_def i0(1) pt(1))
  from hp0 e have "int (n - 1) \<le> int (blocks_left h0)" by simp
  with i0 pt bt show ?thesis by (intro exI [of _ index0] exI [of _ root] exI [of _ index']) simp
qed

lemma symbolCount_filter:
  assumes "int (length a) = ASIZE"
  shows "symbolCount a = int (length (filter (\<lambda>v. v \<noteq> 0) a))"
proof -
  have "length (filter (\<lambda>v. v \<noteq> 0) (map (\<lambda>i. a ! nat i) [0..ASIZE - 1])) = length (symbols a)"
    by (simp add: filter_map comp_def symbols_def)
  with upto_nth_map [of a] assms show ?thesis by (simp add: symbolCount_def)
qed

text \<open>
  Claim C1. Let the table be valid and hold at least two symbols with a count, let
  \<open>qs\<close> sort as \<^verbatim>\<open>qsort\<close> is specified to, and let the allocator have a block for
  every node and for the array. Then the sorted array is set up, and at the head of the
  loop of \<^verbatim>\<open>populateTree\<close> before the first and after every pass (loop variable \<open>k\<close>,
  state \<open>merge_steps k\<close>) the frequencies of the frontier entries add up to the sum of
  all counts of the table. The tree is built, and the frequency of its root is the sum
  of all counts.
\<close>

theorem frequency_conservation:
  assumes "valid_table a" "2 \<le> symbolCount a" "qsort_spec qs"
    and "2 * symbolCount a \<le> int (blocks_left h)"
  shows "\<exists>index0 h0 root index' h'.
           initIndex qs a h = Inr (index0, h0) \<and>
           (\<forall>k < nat (symbolCount a). \<exists>ik hk.
              merge_steps k index0 h0 = Inr (ik, hk) \<and>
              populateTree_loop index0 0 h0 = populateTree_loop ik (int k) hk \<and>
              sum_list (map freq_of (live ik (int k))) = sum_list a) \<and>
           buildTree qs a h = Inr (root, index', h') \<and>
           node_freq root = Inr (sum_list a)"
proof -
  from build_forest [OF assms] obtain index0 h0 root index' h' where
    b: "initIndex qs a h = Inr (index0, h0)" "ni_len index0 = symbolCount a"
      "forest index0 0 (table_leaves a)" "sum_list (map freq_of (live index0 0)) = sum_list a"
      "int (nat (symbolCount a) - 1) \<le> int (blocks_left h0)"
      "buildTree qs a h = Inr (root, index', h')"
      "forest index' (symbolCount a - 1) (table_leaves a)"
      "live index' (symbolCount a - 1) = [root]" "freq_of root = sum_list a"
    by blast
  have steps: "\<forall>k < nat (symbolCount a). \<exists>ik hk.
              merge_steps k index0 h0 = Inr (ik, hk) \<and>
              populateTree_loop index0 0 h0 = populateTree_loop ik (int k) hk \<and>
              sum_list (map freq_of (live ik (int k))) = sum_list a"
  proof (intro allI impI)
    fix k assume k: "k < nat (symbolCount a)"
    with b(2) have k1: "int k < ni_len index0" by simp
    from k b(5) assms(2) have k2: "k \<le> blocks_left h0" by (simp add: int_ops)
    from b(3) have ok: "frontier_ok index0 0" by (simp add: forest_def)
    from merge_steps_frontier [OF ok k1 k2] obtain ik where
      ik: "merge_steps k index0 h0 =
            Inr (ik, h0\<lparr>blocks_left := blocks_left h0 - k, nodes_made := nodes_made h0 + k\<rparr>)"
        "sum_list (map freq_of (live ik (int k))) = sum_list (map freq_of (live index0 0))"
      by blast
    with loop_unfold [OF ik(1) k1] b(4)
    show "\<exists>ik hk. merge_steps k index0 h0 = Inr (ik, hk) \<and>
              populateTree_loop index0 0 h0 = populateTree_loop ik (int k) hk \<and>
              sum_list (map freq_of (live ik (int k))) = sum_list a"
      by auto
  qed
  from forest_root(3) [OF b(7,8)] b(9) have "node_freq root = Inr (sum_list a)"
    by (simp add: node_freq_eq)
  with b(1,6) steps show ?thesis by blast
qed

theorem frequency_conservation_witness:
  "valid_table (replicate 65 0 @ [5, 9, 12] @ replicate 60 0) \<and>
   2 \<le> symbolCount (replicate 65 0 @ [5, 9, 12] @ replicate 60 0) \<and>
   (\<exists>root index' h'.
      buildTree sort_by_freq (replicate 65 0 @ [5, 9, 12] @ replicate 60 0)
        \<lparr>nodes_made = 0, blocks_left = 6\<rparr> = Inr (root, index', h') \<and>
      node_freq root = Inr 26)"
proof -
  let ?T = "replicate 65 0 @ [5, 9, 12] @ replicate 60 (0::int)"
  let ?h = "\<lparr>nodes_made = 0, blocks_left = 6\<rparr>"
  have h1: "valid_table ?T"
    by (simp add: valid_table_def ASIZE_def INT_MAX_def list_all_iff sum_list_replicate)
  have c: "symbolCount ?T = 3"
    by (simp add: symbolCount_filter ASIZE_def)
  then have h2: "2 \<le> symbolCount ?T" and h4: "2 * symbolCount ?T \<le> int (blocks_left ?h)"
    by simp_all
  have s: "sum_list ?T = 26" by (simp add: sum_list_replicate)
  from frequency_conservation [OF h1 h2 qsort_spec_sort_by_freq h4] s h1 h2
  show ?thesis by auto
qed

text \<open>
  Claim C2. Under the same conditions the loop of \<^verbatim>\<open>populateTree\<close> makes exactly
  \<open>symbolCount - 1\<close> passes, each creating one node: its final state is the state after
  \<open>symbolCount - 1\<close> passes and the allocator has handed out \<open>symbolCount - 1\<close> more nodes.
  In the array exactly one entry is left that is not null, and it is the root that
  \<^verbatim>\<open>populateTree\<close> returns.
\<close>

theorem merge_count:
  assumes "valid_table a" "2 \<le> symbolCount a" "qsort_spec qs"
    and "2 * symbolCount a \<le> int (blocks_left h)"
  shows "\<exists>index0 h0 root index' h'.
           initIndex qs a h = Inr (index0, h0) \<and>
           populateTree index0 h0 = Inr (root, index', h') \<and>
           populateTree_loop index0 0 h0 = merge_steps (nat (symbolCount a - 1)) index0 h0 \<and>
           merge_steps (nat (symbolCount a - 1)) index0 h0 = Inr (index', h') \<and>
           nodes_made h' = nodes_made h0 + nat (symbolCount a - 1) \<and>
           root \<noteq> NULL \<and> filter (\<lambda>n. n \<noteq> NULL) (ni_a index') = [root] \<and>
           buildTree qs a h = Inr (root, index', h')"
proof -
  let ?n = "nat (symbolCount a)"
  let ?h0 = "h\<lparr>blocks_left := blocks_left h - 1 - ?n, nodes_made := nodes_made h + ?n\<rparr>"
  let ?h1 = "?h0\<lparr>blocks_left := blocks_left ?h0 - (?n - 1), nodes_made := nodes_made ?h0 + (?n - 1)\<rparr>"
  from build_forest [OF assms] obtain index0 root index' where
    b: "initIndex qs a h = Inr (index0, ?h0)"
      "populateTree index0 ?h0 = Inr (root, index', ?h1)"
      "buildTree qs a h = Inr (root, index', ?h1)"
      "populateTree_loop index0 0 ?h0 = merge_steps (?n - 1) index0 ?h0"
      "merge_steps (?n - 1) index0 ?h0 = Inr (index', ?h1)"
      "forest index' (symbolCount a - 1) (table_leaves a)"
      "live index' (symbolCount a - 1) = [root]"
    by blast
  have e: "?n - 1 = nat (symbolCount a - 1)" by simp
  have "nodes_made ?h1 = nodes_made ?h0 + nat (symbolCount a - 1)" by simp
  with b(1-5) forest_root(3,4) [OF b(6,7)] show ?thesis
    unfolding e by blast
qed

theorem merge_count_witness:
  "valid_table (replicate 65 0 @ [5, 9, 12] @ replicate 60 0) \<and>
   2 \<le> symbolCount (replicate 65 0 @ [5, 9, 12] @ replicate 60 0) \<and>
   (\<exists>index0 h0 root index' h'.
      initIndex sort_by_freq (replicate 65 0 @ [5, 9, 12] @ replicate 60 0)
        \<lparr>nodes_made = 0, blocks_left = 6\<rparr> = Inr (index0, h0) \<and>
      populateTree index0 h0 = Inr (root, index', h') \<and>
      populateTree_loop index0 0 h0 = merge_steps 2 index0 h0 \<and>
      nodes_made h' = nodes_made h0 + 2 \<and>
      filter (\<lambda>n. n \<noteq> NULL) (ni_a index') = [root])"
proof -
  let ?T = "replicate 65 0 @ [5, 9, 12] @ replicate 60 (0::int)"
  let ?h = "\<lparr>nodes_made = 0, blocks_left = 6\<rparr>"
  have h1: "valid_table ?T"
    by (simp add: valid_table_def ASIZE_def INT_MAX_def list_all_iff sum_list_replicate)
  have c: "symbolCount ?T = 3"
    by (simp add: symbolCount_filter ASIZE_def)
  then have h2: "2 \<le> symbolCount ?T" and h4: "2 * symbolCount ?T \<le> int (blocks_left ?h)"
    by simp_all
  have n: "nat (symbolCount ?T - 1) = 2" using c by simp
  from merge_count [OF h1 h2 qsort_spec_sort_by_freq h4, unfolded n] h1 h2
  show ?thesis by blast
qed

text \<open>
  Claim C7. If fewer than two of the \<open>ASIZE\<close> counters of the table are non-zero,
  \<^verbatim>\<open>calcNodeCnt\<close> stops the run with the error of too few nodes. This happens before
  any allocation: the outcome is the same whatever the state of the allocator, also
  when it has no block left to give, where any request made earlier would have failed
  first.
\<close>

theorem too_few_nodes:
  assumes "int (length a) = ASIZE" "symbolCount a < 2"
  shows "calcNodeCnt a = Inl TooFewNodes \<and> initIndex qs a h = Inl TooFewNodes \<and>
         buildTree qs a h = Inl TooFewNodes \<and>
         buildTree qs a (h\<lparr>blocks_left := 0\<rparr>) = Inl TooFewNodes \<and>
         (getFreqsFromFile argc file (replicate (nat ASIZE) 0) = Inr a \<longrightarrow>
            main argc file qs h = Inl TooFewNodes)"
  using calcNodeCnt_eq [OF assms(1)] assms(2)
  by (simp add: buildTree_def initIndex_def main_def and_then_def)

theorem too_few_nodes_witness:
  "int (length (replicate 65 0 @ [7] @ replicate 62 (0::int))) = ASIZE \<and>
   symbolCount (replicate 65 0 @ [7] @ replicate 62 0) < 2 \<and>
   buildTree sort_by_freq (replicate 65 0 @ [7] @ replicate 62 0)
     \<lparr>nodes_made = 0, blocks_left = 0\<rparr> = Inl TooFewNodes"
proof -
  let ?T = "replicate 65 0 @ [7] @ replicate 62 (0::int)"
  have h1: "int (length ?T) = ASIZE" by (simp add: ASIZE_def)
  have h2: "symbolCount ?T < 2" by (simp add: symbolCount_filter ASIZE_def)
  from too_few_nodes [OF h1 h2, of sort_by_freq "\<lparr>nodes_made = 0, blocks_left = 0\<rparr>"] h1 h2
  show ?thesis by simp
qed

section \<open>Encodings\<close>

lemma path_to_descend:
  "path_to t target = Some p \<Longrightarrow> \<exists>f l r. descend t p = Node f target l r"
proof (induction t arbitrary: p)
  case NULL
  then show ?case by simp
next
  case (Node f s l r)
  then show ?case by (auto split: if_splits option.splits)
qed

lemma rev_write:
  assumes "length p < length s"
  shows "(rev p @ drop (length p) s)[length p := ch] = rev (ch # p) @ drop (Suc (length p)) s"
proof -
  from assms have "drop (length p) s = s ! length p # drop (Suc (length p)) s"
    by (simp add: Cons_nth_drop_Suc)
  then show ?thesis by (simp add: list_update_append)
qed

lemma findEncoding_eq:
  "findEncoding t target (cnt, b) =
     (case path_to t target of
        None \<Rightarrow> Inr (NULL, 0, b)
      | Some p \<Rightarrow>
          if length p \<le> length (buf_str b)
          then Inr (descend t p, int (length p), b\<lparr>buf_str := rev p @ drop (length p) (buf_str b)\<rparr>)
          else Inl OutOfBounds)"
proof (induction t arbitrary: cnt b)
  case NULL
  show ?case by simp
next
  case (Node f s l r)
  show ?case
  proof (cases "s = target")
    case True
    then show ?thesis by simp
  next
    case ne: False
    show ?thesis
    proof (cases "path_to l target")
      case (Some p)
      from path_to_descend [OF Some] have nn: "descend l p \<noteq> NULL" by auto
      show ?thesis
      proof (cases "length p < length (buf_str b)")
        case True
        then have w: "write_at (rev p @ drop (length p) (buf_str b)) (int (length p)) (CHR ''0'')
            = Inr (rev (CHR ''0'' # p) @ drop (Suc (length p)) (buf_str b))"
          using rev_write [OF True, of "CHR ''0''"] by (simp add: write_at_def)
        from True ne Some nn show ?thesis
          by (simp add: Node.IH(1) [of 0 b] w)
      next
        case False
        then show ?thesis using ne Some nn
          by (auto simp: Node.IH(1) [of 0 b] write_at_def)
      qed
    next
      case None
      note ln = None
      show ?thesis
      proof (cases "path_to r target")
        case None
        with ln ne show ?thesis
          by (simp add: Node.IH(1) [of 0 b] Node.IH(2) [of 0 b])
      next
        case (Some p)
        from path_to_descend [OF Some] have nn: "descend r p \<noteq> NULL" by auto
        show ?thesis
        proof (cases "length p < length (buf_str b)")
          case True
          then have w: "write_at (rev p @ drop (length p) (buf_str b)) (int (length p)) (CHR ''1'')
              = Inr (rev (CHR ''1'' # p) @ drop (Suc (length p)) (buf_str b))"
            using rev_write [OF True, of "CHR ''1''"] by (simp add: write_at_def)
          from True ne ln Some nn show ?thesis
            by (simp add: Node.IH(1) [of 0 b] Node.IH(2) [of 0 b] w)
        next
          case False
          then show ?thesis using ne ln Some nn
            by (auto simp: Node.IH(1) [of 0 b] Node.IH(2) [of 0 b] write_at_def)
        qed
      qed
    qed
  qed
qed


lemma reverseString_loop_nth:
  assumes "0 \<le> i" "i \<le> n div 2" "n \<le> int (length s)"
  shows "\<exists>s'. reverseString_loop s i (n div 2) i (n - 1 - i) = Inr s' \<and> length s' = length s \<and>
           (\<forall>k < length s. s' ! k =
              (if i \<le> int k \<and> int k < n - i then s ! nat (n - 1 - int k) else s ! k))"
  using assms
proof (induction "nat (n div 2 - i)" arbitrary: s i)
  case 0
  then have i: "i = n div 2" by simp
  have "reverseString_loop s i (n div 2) i (n - 1 - i) = Inr s"
    using i by (subst reverseString_loop.simps) simp
  moreover have "\<forall>k < length s. s ! k =
      (if i \<le> int k \<and> int k < n - i then s ! nat (n - 1 - int k) else s ! k)"
  proof (intro allI impI)
    fix k assume "k < length s"
    show "s ! k = (if i \<le> int k \<and> int k < n - i then s ! nat (n - 1 - int k) else s ! k)"
    proof (cases "i \<le> int k \<and> int k < n - i")
      case True
      with i have "nat (n - 1 - int k) = k" by auto
      with True show ?thesis by simp
    next
      case False
      then show ?thesis by auto
    qed
  qed
  ultimately show ?case by simp
next
  case (Suc m)
  then have lt: "i < n div 2" and i0: "0 \<le> i" and len: "n \<le> int (length s)" by auto
  define a where "a = nat i"
  define b where "b = nat (n - 1 - i)"
  from lt i0 len have ab: "a < b" "b < length s" "int a = i" "int b = n - 1 - i"
    by (auto simp: a_def b_def)
  let ?s2 = "s[a := s ! b, b := s ! a]"
  have r: "read_at s i = Inr (s ! a)" "read_at s (n - 1 - i) = Inr (s ! b)"
    using ab i0 lt len by (auto simp: read_at_def a_def b_def)
  have w: "write_at s i (s ! b) = Inr (s[a := s ! b])"
    "write_at (s[a := s ! b]) (n - 1 - i) (s ! a) = Inr ?s2"
    using ab i0 lt len by (auto simp: write_at_def a_def b_def)
  have step: "reverseString_loop s i (n div 2) i (n - 1 - i) =
      reverseString_loop ?s2 (i + 1) (n div 2) (i + 1) (n - 1 - (i + 1))"
    using lt r w by (subst reverseString_loop.simps) (simp add: algebra_simps)
  have m: "m = nat (n div 2 - (i + 1))" using Suc(2) by simp
  from Suc(1) [OF m, of ?s2] lt i0 len obtain s' where
    s': "reverseString_loop ?s2 (i + 1) (n div 2) (i + 1) (n - 1 - (i + 1)) = Inr s'"
      "length s' = length s"
      "\<forall>k < length s. s' ! k =
          (if i + 1 \<le> int k \<and> int k < n - (i + 1) then ?s2 ! nat (n - 1 - int k) else ?s2 ! k)"
    by auto
  have "\<forall>k < length s. s' ! k =
      (if i \<le> int k \<and> int k < n - i then s ! nat (n - 1 - int k) else s ! k)"
  proof (intro allI impI)
    fix k assume k: "k < length s"
    have ka: "k = a \<longleftrightarrow> int k = i" "k = b \<longleftrightarrow> int k = n - 1 - i" using ab by auto
    consider (inner) "i + 1 \<le> int k \<and> int k < n - (i + 1)" | (lo) "k = a" | (hi) "k = b"
      | (out) "\<not> (i \<le> int k \<and> int k < n - i)"
      unfolding ka by atomize_elim arith
    then show "s' ! k = (if i \<le> int k \<and> int k < n - i then s ! nat (n - 1 - int k) else s ! k)"
    proof cases
      case inner
      define j where "j = n - 1 - int k"
      from inner i0 have j: "i < j" "j < n - 1 - i" "0 \<le> j" by (auto simp: j_def)
      then have "int (nat j) \<noteq> int a" "int (nat j) \<noteq> int b" using ab(3,4) by simp_all
      then have "nat j \<noteq> a" "nat j \<noteq> b" by blast+
      with s'(3) k inner show ?thesis by (simp add: j_def)
    next
      case lo
      have lt2: "2 * i + 2 \<le> n" using lt by arith
      from lo ab lt2 have c: "i \<le> int k \<and> int k < n - i" "nat (n - 1 - int k) = b"
        "\<not> (i + 1 \<le> int k \<and> int k < n - (i + 1))" by (simp_all add: b_def)
      from s'(3) [rule_format, OF k] c(3) have "s' ! k = ?s2 ! k" by simp
      also have "\<dots> = s ! b" using ab lo by simp
      finally show ?thesis using c by simp
    next
      case hi
      have lt2: "2 * i + 2 \<le> n" using lt by arith
      from hi ab lt2 i0 have c: "i \<le> int k \<and> int k < n - i" "nat (n - 1 - int k) = a"
        "\<not> (i + 1 \<le> int k \<and> int k < n - (i + 1))" by (simp_all add: a_def)
      from s'(3) [rule_format, OF k] c(3) have "s' ! k = ?s2 ! k" by simp
      also have "\<dots> = s ! a" using ab hi by simp
      finally show ?thesis using c by simp
    next
      case out
      with ab have "k \<noteq> a" "k \<noteq> b" by auto
      with s'(3) k out show ?thesis by auto
    qed
  qed
  with step s'(1,2) show ?case by simp
qed

lemma strlen_padded:
  assumes "NUL \<notin> set p" "0 < m"
  shows "strlen (p @ replicate m NUL) = Inr (int (length p))"
proof -
  from assms(2) obtain m' where m: "m = Suc m'" by (cases m) auto
  have "takeWhile (\<lambda>ch. ch \<noteq> NUL) (p @ NUL # replicate m' NUL) = p"
    using assms(1) by (subst takeWhile_tail) auto
  then show ?thesis using assms(2) by (simp add: strlen_def m)
qed

lemma reverseString_padded:
  assumes "NUL \<notin> set p" "0 < m"
  shows "reverseString (rev p @ replicate m NUL) = Inr (p @ replicate m NUL)"
proof -
  let ?s = "rev p @ replicate m NUL"
  let ?n = "int (length p)"
  have sl: "strlen ?s = Inr ?n" using strlen_padded [of "rev p" m] assms by simp
  from reverseString_loop_nth [of 0 ?n ?s] obtain s' where
    s': "reverseString_loop ?s 0 (?n div 2) 0 (?n - 1) = Inr s'" "length s' = length ?s"
      "\<forall>k < length ?s. s' ! k = (if int k < ?n then ?s ! nat (?n - 1 - int k) else ?s ! k)"
    by auto
  have "s' = p @ replicate m NUL"
  proof (rule nth_equalityI)
    show "length s' = length (p @ replicate m NUL)" using s'(2) by simp
  next
    fix k assume "k < length s'"
    with s'(2) have k: "k < length ?s" by simp
    show "s' ! k = (p @ replicate m NUL) ! k"
    proof (cases "k < length p")
      case True
      then have "nat (?n - 1 - int k) = length p - 1 - k" "length p - 1 - k < length p" by auto
      with s'(3) k True have "s' ! k = rev p ! (length p - 1 - k)"
        by (simp add: nth_append)
      also have "\<dots> = p ! k" using True by (simp add: rev_nth)
      finally show ?thesis using True by (simp add: nth_append)
    next
      case False
      with s'(3) k show ?thesis by (simp add: nth_append)
    qed
  qed
  with s'(1) sl show ?thesis by (simp add: reverseString_def)
qed

lemma memset0_padded:
  "memset0 (p @ replicate m NUL) (int (length p)) = Inr (replicate (length p + m) NUL)"
  by (simp add: memset0_def replicate_add)


lemma built_full: "built t \<Longrightarrow> full t"
  by (induction t) (auto split: if_splits)

lemma built_leaf_symbol: "built t \<Longrightarrow> (i, f) \<in> set (leaves t) \<Longrightarrow> i \<noteq> PNODE"
  by (induction t) (auto split: if_splits)

lemma leaf_depths_symbols: "map fst (leaf_depths t d) = map fst (leaves t)"
  by (induction t arbitrary: d) auto

lemma path_to_None:
  "built t \<Longrightarrow> i \<noteq> PNODE \<Longrightarrow> i \<notin> fst ` set (leaves t) \<Longrightarrow> path_to t i = None"
proof (induction t)
  case NULL
  then show ?case by simp
next
  case (Node f s l r)
  show ?case
  proof (cases "l = NULL \<and> r = NULL")
    case True
    with Node.prems show ?thesis by auto
  next
    case False
    with Node.prems have "built l" "built r" "s = PNODE"
      "i \<notin> fst ` set (leaves l)" "i \<notin> fst ` set (leaves r)" by auto
    with Node.IH Node.prems(2) show ?thesis by simp
  qed
qed

lemma treeHeight_Node: "treeHeight (Node f s l r) = max (treeHeight l) (treeHeight r) + 1"
  by (simp add: Let_def max_def)

lemma path_to_leaf:
  assumes "built t" "(i, f) \<in> set (leaves t)"
  shows "\<exists>p f'. path_to t i = Some p \<and> set p \<subseteq> {CHR ''0'', CHR ''1''} \<and>
           descend t p = Node f' i NULL NULL \<and> (i, f') \<in> set (leaves t) \<and>
           (i, d + length p) \<in> set (leaf_depths t d) \<and> int (length p) \<le> treeHeight t"
  using assms
proof (induction t arbitrary: d f)
  case NULL
  then show ?case by simp
next
  case (Node g s l r)
  show ?case
  proof (cases "l = NULL \<and> r = NULL")
    case True
    with Node.prems show ?thesis by auto
  next
    case False
    with Node.prems have b: "built l" "built r" "s = PNODE" "l \<noteq> NULL" "r \<noteq> NULL"
      and mem: "(i, f) \<in> set (leaves l) \<or> (i, f) \<in> set (leaves r)" by auto
    from built_leaf_symbol [OF Node.prems] have ne: "i \<noteq> PNODE" .
    with b have si: "s \<noteq> i" by simp
    show ?thesis
    proof (cases "i \<in> fst ` set (leaves l)")
      case True
      then obtain f1 where "(i, f1) \<in> set (leaves l)" by auto
      from Node.IH(1) [OF b(1) this, of "Suc d"] obtain p f' where
        p: "path_to l i = Some p" "set p \<subseteq> {CHR ''0'', CHR ''1''}"
          "descend l p = Node f' i NULL NULL" "(i, f') \<in> set (leaves l)"
          "(i, Suc d + length p) \<in> set (leaf_depths l (Suc d))" "int (length p) \<le> treeHeight l"
        by blast
      have "path_to (Node g s l r) i = Some (CHR ''0'' # p)" using si p(1) by simp
      moreover have "descend (Node g s l r) (CHR ''0'' # p) = Node f' i NULL NULL" using p(3) by simp
      moreover have "(i, f') \<in> set (leaves (Node g s l r))" using p(4) False by auto
      moreover have "(i, d + length (CHR ''0'' # p)) \<in> set (leaf_depths (Node g s l r) d)"
        using p(5) False by auto
      moreover have "int (length (CHR ''0'' # p)) \<le> treeHeight (Node g s l r)"
        using p(6) unfolding treeHeight_Node by simp
      moreover have "set (CHR ''0'' # p) \<subseteq> {CHR ''0'', CHR ''1''}" using p(2) by simp
      ultimately show ?thesis by blast
    next
      case nl: False
      with mem have "(i, f) \<in> set (leaves r)" by force
      from Node.IH(2) [OF b(2) this, of "Suc d"] obtain p f' where
        p: "path_to r i = Some p" "set p \<subseteq> {CHR ''0'', CHR ''1''}"
          "descend r p = Node f' i NULL NULL" "(i, f') \<in> set (leaves r)"
          "(i, Suc d + length p) \<in> set (leaf_depths r (Suc d))" "int (length p) \<le> treeHeight r"
        by blast
      from path_to_None [OF b(1) ne nl] have ln: "path_to l i = None" .
      have "path_to (Node g s l r) i = Some (CHR ''1'' # p)" using si p(1) ln by simp
      moreover have "descend (Node g s l r) (CHR ''1'' # p) = Node f' i NULL NULL" using p(3) by simp
      moreover have "(i, f') \<in> set (leaves (Node g s l r))" using p(4) False by auto
      moreover have "(i, d + length (CHR ''1'' # p)) \<in> set (leaf_depths (Node g s l r) d)"
        using p(5) False by auto
      moreover have "int (length (CHR ''1'' # p)) \<le> treeHeight (Node g s l r)"
        using p(6) unfolding treeHeight_Node by simp
      moreover have "set (CHR ''1'' # p) \<subseteq> {CHR ''0'', CHR ''1''}" using p(2) by simp
      ultimately show ?thesis by blast
    qed
  qed
qed

lemma treeHeight_ge: "- 1 \<le> treeHeight t"
  by (induction t) (auto simp: Let_def)

lemma printHuffman_body_eq:
  assumes path: "path_to root i = Some p" and leaf: "descend root p = Node f i NULL NULL"
    and bits01: "set p \<subseteq> {CHR ''0'', CHR ''1''}" and h: "int (length p) \<le> treeHeight root"
    and buf: "buf_str b = replicate (nat (treeHeight root + 1)) NUL"
  shows "printHuffman_body root i (cnt, b, bits) =
           Inr ((i, p, int (length p), f), int (length p), b, (bits + int (length p) * f) mod 2 ^ 64)"
proof -
  define m where "m = nat (treeHeight root + 1) - length p"
  from h have m: "0 < m" "nat (treeHeight root + 1) = length p + m" by (auto simp: m_def)
  from bits01 have nonul: "NUL \<notin> set p" by (auto simp: NUL_def)
  have str: "buf_str b = replicate (length p) NUL @ replicate m NUL"
    using buf m by (simp add: replicate_add)
  have fe: "findEncoding root i (cnt, b) =
      Inr (Node f i NULL NULL, int (length p), b\<lparr>buf_str := rev p @ replicate m NUL\<rparr>)"
    by (simp add: findEncoding_eq path leaf str)
  have rs: "reverseString (rev p @ replicate m NUL) = Inr (p @ replicate m NUL)"
    by (rule reverseString_padded [OF nonul m(1)])
  have sl: "strlen (p @ replicate m NUL) = Inr (int (length p))"
    by (rule strlen_padded [OF nonul m(1)])
  have ms: "memset0 (p @ replicate m NUL) (int (length p)) = Inr (buf_str b)"
    using memset0_padded [of p m] buf m by simp
  have tw: "takeWhile (\<lambda>ch. ch \<noteq> NUL) (p @ replicate m NUL) = p"
  proof -
    from m(1) obtain m' where "m = Suc m'" by (cases m) auto
    then show ?thesis using nonul by (simp only: replicate_Suc) (subst takeWhile_tail, auto)
  qed
  show ?thesis
    by (simp add: printHuffman_body_def and_then_def fe rs sl ms tw)
qed

lemma path_to_chars: "path_to t i = Some p \<Longrightarrow> set p \<subseteq> {CHR ''0'', CHR ''1''}"
proof (induction t arbitrary: p)
  case NULL
  then show ?case by simp
next
  case (Node f s l r)
  then show ?case by (auto split: if_splits option.splits)
qed

lemma descend_NULL: "descend NULL p = NULL"
  by (cases p) simp_all

lemma descend_append: "descend t (q @ p) = descend (descend t q) p"
  by (induction t q rule: descend.induct) (simp_all add: descend_NULL)

lemma descend_leaf_depth:
  assumes "built t" "descend t e = Node f s l r" "s \<noteq> PNODE"
  shows "(s, d + length e) \<in> set (leaf_depths t d) \<and> l = NULL \<and> r = NULL"
  using assms
proof (induction e arbitrary: t d)
  case Nil
  then show ?case by (auto split: if_splits)
next
  case (Cons ch e)
  from Cons.prems(1) obtain g s' l' r' where t: "t = Node g s' l' r'" by (cases t) auto
  from Cons.prems(2) t have c: "ch = CHR ''0'' \<or> ch = CHR ''1''" by (auto split: if_splits)
  then show ?case
  proof
    assume ch: "ch = CHR ''0''"
    with Cons.prems(2) t have d: "descend l' e = Node f s l r" by simp
    then have "l' \<noteq> NULL" by (auto simp: descend_NULL)
    with Cons.prems(1) t have "built l'" by (auto split: if_splits)
    from Cons.IH [OF this d Cons.prems(3), of "Suc d"] \<open>l' \<noteq> NULL\<close> t show ?thesis by auto
  next
    assume ch: "ch = CHR ''1''"
    with Cons.prems(2) t have d: "descend r' e = Node f s l r" by simp
    then have "r' \<noteq> NULL" by (auto simp: descend_NULL)
    with Cons.prems(1) t have "built r'" by (auto split: if_splits)
    from Cons.IH [OF this d Cons.prems(3), of "Suc d"] \<open>r' \<noteq> NULL\<close> t show ?thesis by auto
  qed
qed

lemma table_leaves_symbols: "image_mset fst (table_leaves a) = mset (symbols a)"
  by (simp add: table_leaves_def image_mset.compositionality comp_def flip: mset_map)

lemma tree_distinct:
  assumes "mset (leaves root) = table_leaves a"
  shows "distinct (map fst (leaves root))" "set (map fst (leaves root)) = set (symbols a)"
proof -
  have "mset (map fst (leaves root)) = mset (symbols a)"
    using assms table_leaves_symbols [of a] by simp
  then show "distinct (map fst (leaves root))" "set (map fst (leaves root)) = set (symbols a)"
    using symbols_distinct [of a] mset_eq_imp_distinct_iff mset_eq_setD by blast+
qed

lemma tree_codes:
  assumes b: "built root" and lv: "mset (leaves root) = table_leaves a" and i: "i \<in> set (symbols a)"
  shows "path_to root i = Some (code_of root i)"
    and "descend root (code_of root i) = leaf_of a i"
    and "set (code_of root i) \<subseteq> {CHR ''0'', CHR ''1''}"
    and "map_of (leaf_depths root 0) i = Some (length (code_of root i))"
    and "int (length (code_of root i)) \<le> treeHeight root"
proof -
  from lv have "set (leaves root) = set (map (\<lambda>i. (i, a ! nat i)) (symbols a))"
    unfolding table_leaves_def by (rule mset_eq_setD)
  with i have mem: "(i, a ! nat i) \<in> set (leaves root)" by auto
  from path_to_leaf [OF b mem, of 0] obtain p f' where
    p: "path_to root i = Some p" "set p \<subseteq> {CHR ''0'', CHR ''1''}"
      "descend root p = Node f' i NULL NULL" "(i, f') \<in> set (leaves root)"
      "(i, length p) \<in> set (leaf_depths root 0)" "int (length p) \<le> treeHeight root"
    by auto
  have c: "code_of root i = p" using p(1) by (simp add: code_of_def)
  from tree_distinct(1) [OF lv] mem p(4) have "f' = a ! nat i"
    by (meson eq_key_imp_eq_value)
  with p c show "path_to root i = Some (code_of root i)"
    "descend root (code_of root i) = leaf_of a i"
    "set (code_of root i) \<subseteq> {CHR ''0'', CHR ''1''}"
    "int (length (code_of root i)) \<le> treeHeight root"
    by (simp_all add: leaf_of_def)
  have "distinct (map fst (leaf_depths root 0))"
    using tree_distinct(1) [OF lv] by (simp add: leaf_depths_symbols)
  with p(5) c show "map_of (leaf_depths root 0) i = Some (length (code_of root i))"
    by simp
qed

lemma printHuffman_loop_eq:
  assumes "int (length a) = ASIZE" "0 \<le> i" "fst (snd st) = b"
    and "\<forall>j \<in> set (nz a i). \<forall>cnt bits. \<exists>cnt' bits'.
           printHuffman_body root j (cnt, b, bits) = Inr (report_line a root j, cnt', b, bits')"
  shows "\<exists>bits'. printHuffman_loop a root i st out =
           Inr (out @ map (report_line a root) (nz a i), bits')"
  using assms
proof (induction a root i st out rule: printHuffman_loop.induct)
  case (1 a root i st out)
  show ?case
  proof (cases "i < ASIZE")
    case False
    then show ?thesis by (subst printHuffman_loop.simps) (simp add: nz_end)
  next
    case True
    with "1.prems" have rd: "read_at a i = Inr (a ! nat i)" by (simp add: read_at_def)
    show ?thesis
    proof (cases "a ! nat i \<noteq> 0")
      case z: False
      with True have e: "nz a i = nz a (i + 1)" by (simp add: nz_step)
      from "1.IH"(2) [OF True rd z "1.prems"(1) _ "1.prems"(3)] "1.prems"(2,4) e
      obtain bits' where "printHuffman_loop a root (i + 1) st out =
           Inr (out @ map (report_line a root) (nz a i), bits')" by auto
      then show ?thesis using True rd z by (subst printHuffman_loop.simps) simp
    next
      case nzc: True
      with True have e: "nz a i = i # nz a (i + 1)" by (simp add: nz_step)
      obtain cnt bits where st: "st = (cnt, b, bits)" using "1.prems"(3) by (cases st) auto
      from "1.prems"(4) e obtain cnt' bits' where
        body: "printHuffman_body root i st = Inr (report_line a root i, cnt', b, bits')"
        unfolding st by fastforce
      have "\<exists>bits''. printHuffman_loop a root (i + 1) (cnt', b, bits') (out @ [report_line a root i]) =
           Inr ((out @ [report_line a root i]) @ map (report_line a root) (nz a (i + 1)), bits'')"
        using "1.prems"(2,4) e
        by (intro "1.IH"(1) [OF True rd nzc body refl "1.prems"(1)]) auto
      then show ?thesis using True rd nzc body e
        by (subst printHuffman_loop.simps) simp
    qed
  qed
qed

lemma createBuffer_eq:
  assumes "blocks_left h \<noteq> 0"
  shows "createBuffer (treeHeight root) h =
    Inr (\<lparr>buf_str = replicate (nat (treeHeight root + 1)) NUL, buf_size = treeHeight root + 1\<rparr>,
         h\<lparr>blocks_left := blocks_left h - 1\<rparr>)"
  using assms treeHeight_ge [of root] by (simp add: createBuffer_def alloc_def)

lemma createBuffer_str:
  assumes "createBuffer (treeHeight root) h1 = Inr (b, h2)"
  shows "buf_str b = replicate (nat (treeHeight root + 1)) NUL"
  using assms by (auto simp: createBuffer_def split: if_splits sum.splits)

lemma printHuffman_eq:
  assumes b: "built root" and lv: "mset (leaves root) = table_leaves a"
    and len: "int (length a) = ASIZE" and heap: "blocks_left h \<noteq> 0"
  shows "\<exists>bytes. printHuffman a root cnt h =
           Inr ((map (report_line a root) (symbols a), bytes), h\<lparr>blocks_left := blocks_left h - 1\<rparr>)"
proof -
  let ?b = "\<lparr>buf_str = replicate (nat (treeHeight root + 1)) NUL, buf_size = treeHeight root + 1\<rparr>"
  have body: "\<forall>j \<in> set (nz a 0). \<forall>cnt bits. \<exists>cnt' bits'.
           printHuffman_body root j (cnt, ?b, bits) = Inr (report_line a root j, cnt', ?b, bits')"
  proof (intro ballI allI)
    fix j cnt bits assume "j \<in> set (nz a 0)"
    then have j: "j \<in> set (symbols a)" by (simp add: symbols_nz)
    note tc = tree_codes [OF b lv j]
    from printHuffman_body_eq [OF tc(1) tc(2) [unfolded leaf_of_def] tc(3) tc(5), of ?b cnt bits]
    show "\<exists>cnt' bits'. printHuffman_body root j (cnt, ?b, bits) = Inr (report_line a root j, cnt', ?b, bits')"
      by (simp add: report_line_def)
  qed
  from printHuffman_loop_eq [OF len _ _ body, of "(cnt, ?b, 0)" "[]"] obtain bits' where
    "printHuffman_loop a root 0 (cnt, ?b, 0) [] = Inr (map (report_line a root) (symbols a), bits')"
    by (auto simp: symbols_nz)
  then show ?thesis
    by (simp add: printHuffman_def and_then_def createBuffer_eq [OF heap])
qed


lemma build_tree:
  assumes "valid_table a" "2 \<le> symbolCount a" "qsort_spec qs"
    and "2 * symbolCount a \<le> int (blocks_left h)"
  shows "\<exists>root index' h'. buildTree qs a h = Inr (root, index', h') \<and>
           built root \<and> mset (leaves root) = table_leaves a \<and>
           int (blocks_left h') = int (blocks_left h) - 2 * symbolCount a"
proof -
  let ?n = "nat (symbolCount a)"
  let ?h0 = "h\<lparr>blocks_left := blocks_left h - 1 - ?n, nodes_made := nodes_made h + ?n\<rparr>"
  let ?h1 = "?h0\<lparr>blocks_left := blocks_left ?h0 - (?n - 1), nodes_made := nodes_made ?h0 + (?n - 1)\<rparr>"
  from build_forest [OF assms] obtain root index' where
    b: "buildTree qs a h = Inr (root, index', ?h1)"
      "forest index' (symbolCount a - 1) (table_leaves a)"
      "live index' (symbolCount a - 1) = [root]"
    by blast
  have "int (blocks_left ?h1) = int (blocks_left h) - 2 * symbolCount a"
    using assms(2,4) by simp
  with b(1) forest_root(1,2) [OF b(2,3)] show ?thesis by blast
qed

lemma codes_incomparable:
  assumes b: "built root" and lv: "mset (leaves root) = table_leaves a"
    and i: "i \<in> set (symbols a)" and j: "j \<in> set (symbols a)" and ne: "i \<noteq> j"
  shows "\<not> prefix (code_of root i) (code_of root j)"
proof
  assume "prefix (code_of root i) (code_of root j)"
  then obtain z where z: "code_of root j = code_of root i @ z" by (auto simp: prefix_def)
  have "leaf_of a j = descend root (code_of root i @ z)"
    using tree_codes(2) [OF b lv j] z by simp
  also have "\<dots> = descend (leaf_of a i) z"
    using tree_codes(2) [OF b lv i] by (simp add: descend_append)
  finally have "leaf_of a j = descend (leaf_of a i) z" .
  then have "leaf_of a j = leaf_of a i"
    by (cases z) (auto simp: leaf_of_def descend_NULL split: if_splits)
  with ne show False by (simp add: leaf_of_def)
qed

lemma symbols_mem: "i \<in> set (symbols a) \<longleftrightarrow> 0 \<le> i \<and> i < ASIZE \<and> a ! nat i \<noteq> 0"
  by (auto simp: symbols_def)

text \<open>
  Claim C5. Let the tree be built from a valid table with at least two symbols, and let
  \<open>i\<close> be a symbol with a count in the table. On a buffer as \<^verbatim>\<open>createBuffer\<close> makes it for
  the height of the tree, \<^verbatim>\<open>findEncoding\<close> returns the leaf of \<open>i\<close>, never the null pointer,
  and \<^verbatim>\<open>reverseString\<close> then leaves in the buffer a string \<open>e\<close> of \<open>0\<close>s and \<open>1\<close>s: the
  path from the root to that leaf, \<open>0\<close> for a step to the left and \<open>1\<close> for a step to the
  right. Its length is the depth of the leaf.
\<close>

theorem encoding_is_leaf_path:
  assumes "valid_table a" "2 \<le> symbolCount a" "qsort_spec qs"
    and "2 * symbolCount a \<le> int (blocks_left h)"
    and "i \<in> set (symbols a)"
  shows "\<exists>root index' h' e.
           buildTree qs a h = Inr (root, index', h') \<and>
           (\<forall>cnt b h1 h2. createBuffer (treeHeight root) h1 = Inr (b, h2) \<longrightarrow>
              (\<exists>b1 s1. findEncoding root i (cnt, b) = Inr (leaf_of a i, int (length e), b1) \<and>
                 reverseString (buf_str b1) = Inr s1 \<and>
                 strlen s1 = Inr (int (length e)) \<and>
                 takeWhile (\<lambda>ch. ch \<noteq> NUL) s1 = e)) \<and>
           set e \<subseteq> {CHR ''0'', CHR ''1''} \<and>
           descend root e = leaf_of a i \<and>
           map_of (leaf_depths root 0) i = Some (length e)"
proof -
  from build_tree [OF assms(1-4)] obtain root index' h' where
    b: "buildTree qs a h = Inr (root, index', h')" "built root" "mset (leaves root) = table_leaves a"
    by blast
  define e where "e = code_of root i"
  note tc = tree_codes [OF b(2,3) assms(5), folded e_def]
  define m where "m = nat (treeHeight root + 1) - length e"
  from tc(5) have m: "0 < m" "nat (treeHeight root + 1) = length e + m" by (auto simp: m_def)
  from tc(3) have nonul: "NUL \<notin> set e" by (auto simp: NUL_def)
  have enc: "\<forall>cnt b h1 h2. createBuffer (treeHeight root) h1 = Inr (b, h2) \<longrightarrow>
              (\<exists>b1 s1. findEncoding root i (cnt, b) = Inr (leaf_of a i, int (length e), b1) \<and>
                 reverseString (buf_str b1) = Inr s1 \<and>
                 strlen s1 = Inr (int (length e)) \<and>
                 takeWhile (\<lambda>ch. ch \<noteq> NUL) s1 = e)"
  proof (intro allI impI)
    fix cnt b h1 h2 assume "createBuffer (treeHeight root) h1 = Inr (b, h2)"
    from createBuffer_str [OF this] m have str: "buf_str b = replicate (length e) NUL @ replicate m NUL"
      by (simp add: replicate_add)
    have fe: "findEncoding root i (cnt, b) =
        Inr (leaf_of a i, int (length e), b\<lparr>buf_str := rev e @ replicate m NUL\<rparr>)"
      by (simp add: findEncoding_eq tc(1,2) str)
    have rs: "reverseString (rev e @ replicate m NUL) = Inr (e @ replicate m NUL)"
      by (rule reverseString_padded [OF nonul m(1)])
    have sl: "strlen (e @ replicate m NUL) = Inr (int (length e))"
      by (rule strlen_padded [OF nonul m(1)])
    have tw: "takeWhile (\<lambda>ch. ch \<noteq> NUL) (e @ replicate m NUL) = e"
    proof -
      from m(1) obtain m' where "m = Suc m'" by (cases m) auto
      then show ?thesis using nonul by (simp only: replicate_Suc) (subst takeWhile_tail, auto)
    qed
    from fe rs sl tw
    show "\<exists>b1 s1. findEncoding root i (cnt, b) = Inr (leaf_of a i, int (length e), b1) \<and>
                 reverseString (buf_str b1) = Inr s1 \<and>
                 strlen s1 = Inr (int (length e)) \<and>
                 takeWhile (\<lambda>ch. ch \<noteq> NUL) s1 = e"
      by simp
  qed
  from b(1) enc tc(2,3,4) show ?thesis by blast
qed

theorem encoding_is_leaf_path_witness:
  "valid_table (replicate 65 0 @ [5, 9, 12] @ replicate 60 0) \<and>
   2 \<le> symbolCount (replicate 65 0 @ [5, 9, 12] @ replicate 60 0) \<and>
   66 \<in> set (symbols (replicate 65 0 @ [5, 9, 12] @ replicate 60 0)) \<and>
   (\<exists>root index' h' e.
      buildTree sort_by_freq (replicate 65 0 @ [5, 9, 12] @ replicate 60 0)
        \<lparr>nodes_made = 0, blocks_left = 6\<rparr> = Inr (root, index', h') \<and>
      descend root e = Node 9 66 NULL NULL \<and>
      map_of (leaf_depths root 0) 66 = Some (length e))"
proof -
  let ?T = "replicate 65 0 @ [5, 9, 12] @ replicate 60 (0::int)"
  let ?h = "\<lparr>nodes_made = 0, blocks_left = 6\<rparr>"
  have h1: "valid_table ?T"
    by (simp add: valid_table_def ASIZE_def INT_MAX_def list_all_iff sum_list_replicate)
  have c: "symbolCount ?T = 3"
    by (simp add: symbolCount_filter ASIZE_def)
  then have h2: "2 \<le> symbolCount ?T" and h4: "2 * symbolCount ?T \<le> int (blocks_left ?h)"
    by simp_all
  have h5: "66 \<in> set (symbols ?T)"
    by (simp add: symbols_mem ASIZE_def nth_append)
  have l: "leaf_of ?T 66 = Node 9 66 NULL NULL"
    by (simp add: leaf_of_def nth_append)
  from encoding_is_leaf_path [OF h1 h2 qsort_spec_sort_by_freq h4 h5, unfolded l] h1 h2 h5
  show ?thesis by blast
qed

text \<open>
  Claim C10. For a tree built from a valid table and a symbol \<open>i\<close> of the table, let \<open>d\<close> be
  the depth of the leaf of \<open>i\<close>; it is at most \<^verbatim>\<open>treeHeight(root)\<close>. Every call of
  \<^verbatim>\<open>findEncoding\<close> that the search for \<open>i\<close> makes, on the root or on any node or null
  pointer below it, on the buffer of \<^verbatim>\<open>treeHeight(root) + 1\<close> zero bytes, returns without a
  write outside the buffer; the counter \<open>cnt\<close> it leaves is between 0 and \<open>d\<close>, below the
  size of the buffer, and the buffer holds a string of that length ended by a zero byte.
  \<^verbatim>\<open>printHuffman\<close>, which uses one buffer for all symbols, completes.
\<close>

theorem encoding_fits_buffer:
  assumes "valid_table a" "2 \<le> symbolCount a" "qsort_spec qs"
    and "2 * symbolCount a \<le> int (blocks_left h)"
    and "i \<in> set (symbols a)"
  shows "\<exists>root index' h' d.
           buildTree qs a h = Inr (root, index', h') \<and>
           map_of (leaf_depths root 0) i = Some d \<and> int d \<le> treeHeight root \<and>
           (\<forall>cnt b h1 h2 q. createBuffer (treeHeight root) h1 = Inr (b, h2) \<longrightarrow>
              int (length (buf_str b)) = treeHeight root + 1 \<and>
              (\<exists>n cnt' b'. findEncoding (descend root q) i (cnt, b) = Inr (n, cnt', b') \<and>
                 0 \<le> cnt' \<and> cnt' \<le> int d \<and> cnt' < int (length (buf_str b')) \<and>
                 length (buf_str b') = length (buf_str b) \<and>
                 strlen (buf_str b') = Inr cnt')) \<and>
           (\<forall>cnt h1. blocks_left h1 \<noteq> 0 \<longrightarrow> (\<exists>r. printHuffman a root cnt h1 = Inr r))"
proof -
  from build_tree [OF assms(1-4)] obtain root index' h' where
    b: "buildTree qs a h = Inr (root, index', h')" "built root" "mset (leaves root) = table_leaves a"
    by blast
  define d where "d = length (code_of root i)"
  note tc = tree_codes [OF b(2,3) assms(5), folded d_def]
  from symbols_range [OF assms(5)] have ne: "i \<noteq> PNODE" by (simp add: PNODE_def)
  have dist: "distinct (map fst (leaf_depths root 0))"
    using tree_distinct(1) [OF b(3)] by (simp add: leaf_depths_symbols)
  have sub: "\<forall>cnt b h1 h2 q. createBuffer (treeHeight root) h1 = Inr (b, h2) \<longrightarrow>
              int (length (buf_str b)) = treeHeight root + 1 \<and>
              (\<exists>n cnt' b'. findEncoding (descend root q) i (cnt, b) = Inr (n, cnt', b') \<and>
                 0 \<le> cnt' \<and> cnt' \<le> int d \<and> cnt' < int (length (buf_str b')) \<and>
                 length (buf_str b') = length (buf_str b) \<and>
                 strlen (buf_str b') = Inr cnt')"
  proof (intro allI impI)
    fix cnt b h1 h2 q assume "createBuffer (treeHeight root) h1 = Inr (b, h2)"
    note str = createBuffer_str [OF this]
    from tc(5) have hpos: "0 \<le> treeHeight root" by simp
    with str have lenb: "int (length (buf_str b)) = treeHeight root + 1" by simp
    have call: "\<exists>n cnt' b'. findEncoding (descend root q) i (cnt, b) = Inr (n, cnt', b') \<and>
                 0 \<le> cnt' \<and> cnt' \<le> int d \<and> cnt' < int (length (buf_str b')) \<and>
                 length (buf_str b') = length (buf_str b) \<and>
                 strlen (buf_str b') = Inr cnt'"
    proof (cases "path_to (descend root q) i")
      case None
      have "strlen (buf_str b) = Inr 0"
        using strlen_padded [of "[]" "nat (treeHeight root + 1)"] hpos str by simp
      with None lenb hpos show ?thesis by (simp add: findEncoding_eq)
    next
      case (Some p)
      from path_to_descend [OF Some] obtain f l r where
        "descend (descend root q) p = Node f i l r" by blast
      then have "descend root (q @ p) = Node f i l r" by (simp add: descend_append)
      from descend_leaf_depth [OF b(2) this ne, of 0]
      have "(i, length (q @ p)) \<in> set (leaf_depths root 0)" by simp
      with dist tc(4) have "length (q @ p) = d" by simp
      then have pd: "length p \<le> d" by simp
      with tc(5) have pl: "length p < length (buf_str b)" using lenb by linarith
      define m where "m = length (buf_str b) - length p"
      from pl have m: "0 < m" "length (buf_str b) = length p + m" by (auto simp: m_def)
      from path_to_chars [OF Some] have nonul: "NUL \<notin> set (rev p)" by (auto simp: NUL_def)
      have dr: "drop (length p) (buf_str b) = replicate m NUL"
        using str m by (simp add: m_def)
      have "strlen (rev p @ replicate m NUL) = Inr (int (length p))"
        using strlen_padded [OF nonul m(1)] by simp
      with Some pl pd m show ?thesis by (simp add: findEncoding_eq dr)
    qed
    from lenb call
    show "int (length (buf_str b)) = treeHeight root + 1 \<and>
              (\<exists>n cnt' b'. findEncoding (descend root q) i (cnt, b) = Inr (n, cnt', b') \<and>
                 0 \<le> cnt' \<and> cnt' \<le> int d \<and> cnt' < int (length (buf_str b')) \<and>
                 length (buf_str b') = length (buf_str b) \<and>
                 strlen (buf_str b') = Inr cnt')" by blast
  qed
  from assms(1) have len: "int (length a) = ASIZE" by (simp add: valid_table_def)
  have "\<forall>cnt h1. blocks_left h1 \<noteq> 0 \<longrightarrow> (\<exists>r. printHuffman a root cnt h1 = Inr r)"
    using printHuffman_eq [OF b(2,3) len] by blast
  with b(1) tc(4,5) sub show ?thesis by blast
qed

theorem encoding_fits_buffer_witness:
  "valid_table (replicate 65 0 @ [5, 9, 12] @ replicate 60 0) \<and>
   2 \<le> symbolCount (replicate 65 0 @ [5, 9, 12] @ replicate 60 0) \<and>
   66 \<in> set (symbols (replicate 65 0 @ [5, 9, 12] @ replicate 60 0)) \<and>
   (\<exists>root index' h' d.
      buildTree sort_by_freq (replicate 65 0 @ [5, 9, 12] @ replicate 60 0)
        \<lparr>nodes_made = 0, blocks_left = 6\<rparr> = Inr (root, index', h') \<and>
      map_of (leaf_depths root 0) 66 = Some d \<and> int d \<le> treeHeight root)"
proof -
  let ?T = "replicate 65 0 @ [5, 9, 12] @ replicate 60 (0::int)"
  let ?h = "\<lparr>nodes_made = 0, blocks_left = 6\<rparr>"
  have h1: "valid_table ?T"
    by (simp add: valid_table_def ASIZE_def INT_MAX_def list_all_iff sum_list_replicate)
  have c: "symbolCount ?T = 3"
    by (simp add: symbolCount_filter ASIZE_def)
  then have h2: "2 \<le> symbolCount ?T" and h4: "2 * symbolCount ?T \<le> int (blocks_left ?h)"
    by simp_all
  have h5: "66 \<in> set (symbols ?T)"
    by (simp add: symbols_mem ASIZE_def nth_append)
  from encoding_fits_buffer [OF h1 h2 qsort_spec_sort_by_freq h4 h5] h1 h2 h5
  show ?thesis by blast
qed

text \<open>
  Claim C6. In the tree built from a valid table with at least two symbols every node
  has no child or two, \<^verbatim>\<open>printHuffman\<close> prints for each symbol of the table its encoding
  \<open>code_of\<close>, and the encoding of no symbol is a prefix of the encoding of another.
\<close>

theorem prefix_free:
  assumes "valid_table a" "2 \<le> symbolCount a" "qsort_spec qs"
    and "2 * symbolCount a \<le> int (blocks_left h)"
  shows "\<exists>root index' h'.
           buildTree qs a h = Inr (root, index', h') \<and> root \<noteq> NULL \<and> full root \<and>
           (\<forall>cnt h1. blocks_left h1 \<noteq> 0 \<longrightarrow>
              (\<exists>bytes h2. printHuffman a root cnt h1 =
                 Inr ((map (report_line a root) (symbols a), bytes), h2))) \<and>
           (\<forall>i \<in> set (symbols a). \<forall>j \<in> set (symbols a).
              i \<noteq> j \<longrightarrow> \<not> prefix (code_of root i) (code_of root j))"
proof -
  from build_tree [OF assms] obtain root index' h' where
    b: "buildTree qs a h = Inr (root, index', h')" "built root" "mset (leaves root) = table_leaves a"
    by blast
  from assms(1) have len: "int (length a) = ASIZE" by (simp add: valid_table_def)
  from b(2) have "root \<noteq> NULL" by auto
  moreover have "full root" by (rule built_full [OF b(2)])
  moreover have "\<forall>cnt h1. blocks_left h1 \<noteq> 0 \<longrightarrow>
              (\<exists>bytes h2. printHuffman a root cnt h1 =
                 Inr ((map (report_line a root) (symbols a), bytes), h2))"
    using printHuffman_eq [OF b(2,3) len] by blast
  moreover have "\<forall>i \<in> set (symbols a). \<forall>j \<in> set (symbols a).
              i \<noteq> j \<longrightarrow> \<not> prefix (code_of root i) (code_of root j)"
    using codes_incomparable [OF b(2,3)] by blast
  ultimately show ?thesis using b(1) by blast
qed

theorem prefix_free_witness:
  "valid_table (replicate 65 0 @ [5, 9, 12] @ replicate 60 0) \<and>
   2 \<le> symbolCount (replicate 65 0 @ [5, 9, 12] @ replicate 60 0) \<and>
   (\<exists>root index' h'.
      buildTree sort_by_freq (replicate 65 0 @ [5, 9, 12] @ replicate 60 0)
        \<lparr>nodes_made = 0, blocks_left = 6\<rparr> = Inr (root, index', h') \<and> full root \<and>
      \<not> prefix (code_of root 65) (code_of root 67))"
proof -
  let ?T = "replicate 65 0 @ [5, 9, 12] @ replicate 60 (0::int)"
  let ?h = "\<lparr>nodes_made = 0, blocks_left = 6\<rparr>"
  have h1: "valid_table ?T"
    by (simp add: valid_table_def ASIZE_def INT_MAX_def list_all_iff sum_list_replicate)
  have c: "symbolCount ?T = 3"
    by (simp add: symbolCount_filter ASIZE_def)
  then have h2: "2 \<le> symbolCount ?T" and h4: "2 * symbolCount ?T \<le> int (blocks_left ?h)"
    by simp_all
  have m: "65 \<in> set (symbols ?T)" "67 \<in> set (symbols ?T)"
    by (simp_all add: symbols_mem ASIZE_def nth_append)
  from prefix_free [OF h1 h2 qsort_spec_sort_by_freq h4] obtain root index' h' where
    r: "buildTree sort_by_freq ?T ?h = Inr (root, index', h')" "full root"
      "\<forall>i \<in> set (symbols ?T). \<forall>j \<in> set (symbols ?T).
              i \<noteq> j \<longrightarrow> \<not> prefix (code_of root i) (code_of root j)"
    by blast
  from r(3) m have "\<not> prefix (code_of root 65) (code_of root 67)" by simp
  with r(1,2) h1 h2 show ?thesis by blast
qed

text \<open>
  Claim C8, as the code has it. The table has \<open>ASIZE = 128\<close> counters, for the symbols 0
  to 127. For every such table that is valid and has at least two symbols with a count,
  the tree is built, its leaves are exactly the symbols of the table with their counts,
  \<^verbatim>\<open>findEncoding\<close> finds the leaf of every symbol at the end of its encoding, and
  \<^verbatim>\<open>printHuffman\<close> and \<^verbatim>\<open>main\<close> report an encoding for each of them.
\<close>

theorem ascii_table_accepted:
  assumes "valid_table a" "2 \<le> symbolCount a" "qsort_spec qs"
    and "2 * symbolCount a + 1 \<le> int (blocks_left h)"
  shows "\<exists>root index' h' bytes.
           buildTree qs a h = Inr (root, index', h') \<and>
           mset (leaves root) = table_leaves a \<and>
           (\<forall>i \<in> set (symbols a). \<forall>cnt b h1 h2.
              createBuffer (treeHeight root) h1 = Inr (b, h2) \<longrightarrow>
              (\<exists>b1. findEncoding root i (cnt, b) =
                        Inr (leaf_of a i, int (length (code_of root i)), b1)) \<and>
              descend root (code_of root i) = leaf_of a i) \<and>
           (\<exists>h''. printHuffman a root 0 h' =
              Inr ((map (report_line a root) (symbols a), bytes), h'')) \<and>
           (getFreqsFromFile argc file (replicate (nat ASIZE) 0) = Inr a \<longrightarrow>
              main argc file qs h = Inr (map (report_line a root) (symbols a), bytes))"
proof -
  from assms(4) have hp: "2 * symbolCount a \<le> int (blocks_left h)" by simp
  from build_tree [OF assms(1-3) hp] obtain root index' h' where
    b: "buildTree qs a h = Inr (root, index', h')" "built root" "mset (leaves root) = table_leaves a"
      "int (blocks_left h') = int (blocks_left h) - 2 * symbolCount a"
    by blast
  from assms(1) have len: "int (length a) = ASIZE" by (simp add: valid_table_def)
  from b(4) assms(4) have h'0: "blocks_left h' \<noteq> 0" by auto
  from printHuffman_eq [OF b(2,3) len h'0, of 0] obtain bytes where
    ph: "printHuffman a root 0 h' =
           Inr ((map (report_line a root) (symbols a), bytes), h'\<lparr>blocks_left := blocks_left h' - 1\<rparr>)"
    by blast
  have enc: "\<forall>i \<in> set (symbols a). \<forall>cnt b h1 h2.
              createBuffer (treeHeight root) h1 = Inr (b, h2) \<longrightarrow>
              (\<exists>b1. findEncoding root i (cnt, b) =
                        Inr (leaf_of a i, int (length (code_of root i)), b1)) \<and>
              descend root (code_of root i) = leaf_of a i"
  proof (intro ballI allI impI)
    fix i cnt b h1 h2
    assume i: "i \<in> set (symbols a)" and cb: "createBuffer (treeHeight root) h1 = Inr (b, h2)"
    note tc = tree_codes [OF b(2,3) i]
    from createBuffer_str [OF cb] tc(5)
    have "length (code_of root i) \<le> length (buf_str b)" by simp
    with tc(1,2)
    show "(\<exists>b1. findEncoding root i (cnt, b) =
                        Inr (leaf_of a i, int (length (code_of root i)), b1)) \<and>
              descend root (code_of root i) = leaf_of a i"
      by (simp add: findEncoding_eq)
  qed
  have "getFreqsFromFile argc file (replicate (nat ASIZE) 0) = Inr a \<longrightarrow>
              main argc file qs h = Inr (map (report_line a root) (symbols a), bytes)"
    by (simp add: main_def and_then_def b(1) ph)
  with b(1,3) enc ph show ?thesis by blast
qed

theorem ascii_table_accepted_witness:
  "valid_table (replicate 65 0 @ [5, 9, 12] @ replicate 60 0) \<and>
   2 \<le> symbolCount (replicate 65 0 @ [5, 9, 12] @ replicate 60 0) \<and>
   (\<exists>root index' h'.
      buildTree sort_by_freq (replicate 65 0 @ [5, 9, 12] @ replicate 60 0)
        \<lparr>nodes_made = 0, blocks_left = 7\<rparr> = Inr (root, index', h') \<and>
      mset (leaves root) = table_leaves (replicate 65 0 @ [5, 9, 12] @ replicate 60 0))"
proof -
  let ?T = "replicate 65 0 @ [5, 9, 12] @ replicate 60 (0::int)"
  let ?h = "\<lparr>nodes_made = 0, blocks_left = 7\<rparr>"
  have h1: "valid_table ?T"
    by (simp add: valid_table_def ASIZE_def INT_MAX_def list_all_iff sum_list_replicate)
  have c: "symbolCount ?T = 3"
    by (simp add: symbolCount_filter ASIZE_def)
  then have h2: "2 \<le> symbolCount ?T" and h4: "2 * symbolCount ?T + 1 \<le> int (blocks_left ?h)"
    by simp_all
  from ascii_table_accepted [OF h1 h2 qsort_spec_sort_by_freq h4] h1 h2
  show ?thesis by blast
qed

text \<open>
  Claim C8 as stated, for byte values up to 255 and any positive counts, fails. On a
  file of the bytes 200, 201 and 200 \<^verbatim>\<open>getFreqsFromFile\<close> counts outside the table of
  \<open>ASIZE\<close> counters. On a longer table that does hold counts for 200 and 201 the core
  looks at the first \<open>ASIZE\<close> counters only and stops for too few nodes. And on a table
  whose two counts add up to more than \<open>INT_MAX\<close> the sum that \<^verbatim>\<open>populateTree\<close> computes
  overflows.
\<close>

theorem bytes_above_ascii_rejected:
  "main 2 (Some [200, 201, 200]) sort_by_freq \<lparr>nodes_made = 0, blocks_left = 10\<rparr> = Inl OutOfBounds \<and>
   buildTree sort_by_freq (replicate 200 0 @ [2, 1] @ replicate 54 0)
     \<lparr>nodes_made = 0, blocks_left = 10\<rparr> = Inl TooFewNodes \<and>
   buildTree sort_by_freq (replicate 65 0 @ [1073741824, 1073741824] @ replicate 61 0)
     \<lparr>nodes_made = 0, blocks_left = 10\<rparr> = Inl IntOverflow"
proof -
  have "main 2 (Some [200, 201, 200]) sort_by_freq \<lparr>nodes_made = 0, blocks_left = 10\<rparr> = Inl OutOfBounds"
    by (simp add: main_def getFreqsFromFile_def read_at_def ASIZE_def and_then_def)
  moreover have "buildTree sort_by_freq (replicate 200 0 @ [2, 1] @ replicate 54 0)
     \<lparr>nodes_made = 0, blocks_left = 10\<rparr> = Inl TooFewNodes"
    by code_simp
  moreover have "buildTree sort_by_freq (replicate 65 0 @ [1073741824, 1073741824] @ replicate 61 0)
     \<lparr>nodes_made = 0, blocks_left = 10\<rparr> = Inl IntOverflow"
    by code_simp
  ultimately show ?thesis by simp
qed

section \<open>The model at work\<close>

text \<open>
  The textbook table, with the counts 5, 9, 12, 13, 16 and 45 for the letters A to F, and
  the report for a file of eight letters.
\<close>

lemma classic_tree:
  "buildTree sort_by_freq (replicate 65 0 @ [5, 9, 12, 13, 16, 45] @ replicate 57 0)
     \<lparr>nodes_made = 0, blocks_left = 12\<rparr> =
   Inr (Node 100 (- 250) (Node 45 70 NULL NULL)
         (Node 55 (- 250)
           (Node 25 (- 250) (Node 12 67 NULL NULL) (Node 13 68 NULL NULL))
           (Node 30 (- 250)
             (Node 14 (- 250) (Node 5 65 NULL NULL) (Node 9 66 NULL NULL))
             (Node 16 69 NULL NULL))),
        \<lparr>ni_a = [NULL, NULL, NULL, NULL, NULL,
           Node 100 (- 250) (Node 45 70 NULL NULL)
            (Node 55 (- 250)
              (Node 25 (- 250) (Node 12 67 NULL NULL) (Node 13 68 NULL NULL))
              (Node 30 (- 250)
                (Node 14 (- 250) (Node 5 65 NULL NULL) (Node 9 66 NULL NULL))
                (Node 16 69 NULL NULL)))], ni_len = 6\<rparr>,
        \<lparr>nodes_made = 11, blocks_left = 0\<rparr>)"
  by code_simp

lemma classic_report:
  "main 2 (Some [65, 66, 65, 67, 65, 66, 65, 68]) sort_by_freq \<lparr>nodes_made = 0, blocks_left = 9\<rparr> =
     Inr ([(65, ''0'', 1, 4), (66, ''10'', 2, 2), (67, ''110'', 3, 1), (68, ''111'', 3, 1)], 2)"
  by code_simp

end
